theory Spec2Isabelle
  imports Main "HOL-Library.Char_ord" "HOL-Library.List_Lexorder"
begin

section \<open>Data model (types.ts)\<close>

text \<open>
  JavaScript strings are modelled as \<^typ>\<open>string\<close>: one \<^typ>\<open>char\<close> per code unit, so the
  model covers the inputs whose code units lie below 256. Field names follow types.ts;
  where two interfaces share a field name the later ones carry a prefix
  (\<open>PathIssue.type\<close> is \<open>issueType\<close>, \<open>PathIssue.path\<close> is \<open>issuePath\<close>,
  \<open>TreeNode.path\<close> is \<open>nodePath\<close>, \<open>ProcessedPaths.issues\<close> is \<open>allIssues\<close>, and so
  on). The optional \<open>line\<close> is an option.
\<close>

datatype IssueType = Duplicate | Conflict | Invalid | Reserved | Depth | Sanitized

record PathIssue =
  issueType :: IssueType
  issuePath :: string
  message :: string
  line :: "nat option"

record PathEntry =
  path :: string
  isDirectory :: bool
  originalLine :: nat
  issues :: "PathIssue list"

datatype TreeNode =
  TreeNode (name: string) (nodePath: string) (nodeIsDirectory: bool)
    (children: "TreeNode list") (nodeIssues: "PathIssue list")

record ProcessedPaths =
  entries :: "PathEntry list"
  allIssues :: "PathIssue list"
  folderCount :: nat
  fileCount :: nat

text \<open>
  Thrown values: \<open>new Error(message)\<close>, the only value \<open>normalizePath\<close> throws,
  and zod's \<open>ZodError\<close> with the messages of its \<open>errors\<close>, the only value
  \<open>InputSchema.parse\<close> throws.
\<close>

datatype error = Error (errorMessage: string)


section \<open>String operations of the runtime\<close>

text \<open>
  \<open>s.split(c)\<close> for a one-character separator. The result is never empty
  (\<open>''.split(c)\<close> is \<open>['']\<close>), so the last case below is never taken.
\<close>

fun split :: "char \<Rightarrow> string \<Rightarrow> string list" where
  "split c [] = [[]]"
| "split c (x # xs) =
     (if x = c then [] # split c xs
      else (case split c xs of
              y # ys \<Rightarrow> (x # y) # ys
            | [] \<Rightarrow> [[x]]))"

text \<open>\<open>parts.join(sep)\<close>.\<close>

fun join :: "string \<Rightarrow> string list \<Rightarrow> string" where
  "join sep [] = []"
| "join sep [x] = x"
| "join sep (x # y # ys) = x @ sep @ join sep (y # ys)"

text \<open>
  \<open>s.trim()\<close> removes white space and line terminators at both ends; below 256 these
  are TAB, LF, VT, FF, CR, SPACE and NBSP.
\<close>

definition isWhiteSpace :: "char \<Rightarrow> bool" where
  "isWhiteSpace c \<longleftrightarrow> (of_char c :: nat) \<in> {9, 10, 11, 12, 13, 32, 160}"

definition trim :: "string \<Rightarrow> string" where
  "trim s = rev (dropWhile isWhiteSpace (rev (dropWhile isWhiteSpace s)))"

definition endsWith :: "string \<Rightarrow> char \<Rightarrow> bool" where
  "endsWith s c \<longleftrightarrow> s \<noteq> [] \<and> last s = c"

text \<open>Decimal rendering of a number inside a template literal.\<close>

function showNat :: "nat \<Rightarrow> string" where
  "showNat n =
     (if n < 10 then [''0123456789'' ! n]
      else showNat (n div 10) @ [''0123456789'' ! (n mod 10)])"
  by pat_completeness auto
termination
  by (relation "measure id") auto

declare showNat.simps [simp del]

section \<open>path-processor.ts\<close>

definition MAX_DEPTH :: nat where
  "MAX_DEPTH = 30"

definition MAX_LINES :: nat where
  "MAX_LINES = 5000"

text \<open>\<open>INVALID_CHARS = /[<>:"|?*\x00-\x1F]/\<close>: the character class.\<close>

definition INVALID_CHARS :: "char \<Rightarrow> bool" where
  "INVALID_CHARS c \<longleftrightarrow> c \<in> set ''<>:\"|?*'' \<or> (of_char c :: nat) \<le> 31"

text \<open>
  \<open>RESERVED_NAMES = /^(CON|PRN|AUX|NUL|COM[1-9]|LPT[1-9])(\.|$)/i\<close>. Without the
  unicode flag, \<open>/i\<close> never lets a non-ASCII character match an ASCII letter, so a
  pattern letter matches exactly its upper and lower case ASCII forms.
\<close>

definition toUpperAscii :: "char \<Rightarrow> char" where
  "toUpperAscii c =
     (case map_of (zip ''abcdefghijklmnopqrstuvwxyz'' ''ABCDEFGHIJKLMNOPQRSTUVWXYZ'') c of
        Some u \<Rightarrow> u | None \<Rightarrow> c)"

definition deviceNames :: "string list" where
  "deviceNames = [''CON'', ''PRN'', ''AUX'', ''NUL'']
     @ map (\<lambda>d. ''COM'' @ [d]) ''123456789''
     @ map (\<lambda>d. ''LPT'' @ [d]) ''123456789''"

definition RESERVED_NAMES :: "string \<Rightarrow> bool" where
  "RESERVED_NAMES s \<longleftrightarrow>
     list_ex (\<lambda>d. map toUpperAscii (take (length d) s) = d \<and>
                  (length s = length d \<or> s ! length d = CHR ''.'')) deviceNames"


record ValidationResult =
  success :: bool
  error :: "string option"


text \<open>
  The second \<open>return\<close> of the \<open>catch\<close> block (\<open>'Validation error'\<close>) is for a thrown
  value that is no \<open>ZodError\<close>; \<open>parse\<close> throws none.
\<close>

text \<open>The three global replacements of \<open>normalizePath\<close>.\<close>

definition backslashesToSlashes :: "string \<Rightarrow> string" where
  "backslashesToSlashes s = map (\<lambda>c. if c = CHR 0x5C then CHR ''/'' else c) s"

fun collapseSlashes :: "string \<Rightarrow> string" where
  "collapseSlashes (a # b # cs) =
     (if a = CHR ''/'' \<and> b = CHR ''/'' then collapseSlashes (b # cs)
      else a # collapseSlashes (b # cs))"
| "collapseSlashes cs = cs"

definition stripSlashes :: "string \<Rightarrow> string" where
  "stripSlashes s =
     rev (dropWhile (\<lambda>c. c = CHR ''/'') (rev (dropWhile (\<lambda>c. c = CHR ''/'') s)))"

text \<open>The segments after the slash handling, and the parts left once \<open>.\<close> is dropped.\<close>

definition slashSegments :: "string \<Rightarrow> string list" where
  "slashSegments p =
     split (CHR ''/'') (stripSlashes (collapseSlashes (backslashesToSlashes p)))"

definition normalParts :: "string \<Rightarrow> string list" where
  "normalParts p = filter (\<lambda>q. q \<noteq> ''.'') (slashSegments p)"

definition normalizePath :: "string \<Rightarrow> error + string" where
  "normalizePath p =
     (let parts = normalParts p
      in if list_ex (\<lambda>q. q = ''..'') parts
         then Inl (Error ''Parent directory references (..) are not allowed'')
         else Inr (join ''/'' parts))"

text \<open>
  \<open>name.replace(INVALID_CHARS, '-')\<close>: the regular expression has no \<open>g\<close> flag, so
  \<open>replace\<close> rewrites the first match only.
\<close>

fun sanitizeFileName :: "string \<Rightarrow> string" where
  "sanitizeFileName [] = []"
| "sanitizeFileName (c # cs) =
     (if INVALID_CHARS c then CHR ''-'' # cs else c # sanitizeFileName cs)"

record FileNameValidation =
  valid :: bool
  sanitized :: "string option"
  issue :: "string option"

definition validateFileName :: "string \<Rightarrow> FileNameValidation" where
  "validateFileName nm =
     (if nm = [] \<or> trim nm = [] then
        \<lparr>valid = False, sanitized = None, issue = Some ''Empty name''\<rparr>
      else if list_ex INVALID_CHARS nm then
        \<lparr>valid = False, sanitized = Some (sanitizeFileName nm),
         issue = Some ''Contains invalid characters''\<rparr>
      else if RESERVED_NAMES nm then
        \<lparr>valid = False, sanitized = None, issue = Some ''Reserved name''\<rparr>
      else if length nm > 255 then
        \<lparr>valid = False, sanitized = None, issue = Some ''Name too long''\<rparr>
      else \<lparr>valid = True, sanitized = None, issue = None\<rparr>)"

text \<open>
  The local variables of \<open>processPaths\<close> that the \<open>forEach\<close> callback updates.
  \<open>pathToEntry\<close> holds references to entry objects that are also in \<open>entries\<close>; an
  entry is stored in the map exactly when it is pushed, so a reference is the index of
  the entry in \<open>entries\<close>, and a write through the reference is a write to that slot.
\<close>

record ProcState =
  st_issues :: "PathIssue list"
  st_entries :: "PathEntry list"
  seenPaths :: "string \<rightharpoonup> nat list"
  pathToEntry :: "string \<rightharpoonup> nat"

text \<open>
  One call of the callback of \<open>segments.forEach\<close> (lines 129 to 148): the issues it pushes
  to \<open>entryIssues\<close>. The arrow of the message (U+2192) lies above 255 and is written as its
  three UTF-8 bytes.
\<close>

definition truthy :: "string option \<Rightarrow> bool" where
  "truthy v = (case v of None \<Rightarrow> False | Some s \<Rightarrow> s \<noteq> [])"

definition segmentIssue :: "nat \<Rightarrow> string \<Rightarrow> PathIssue list" where
  "segmentIssue lineNo segment =
     (let validation = validateFileName segment
      in if \<not> valid validation then
           if truthy (sanitized validation) then
             [\<lparr>issueType = Sanitized, issuePath = segment,
               message = ''Sanitized: \"'' @ segment @ ''\" '' @ [CHR 0xE2, CHR 0x86, CHR 0x92]
                 @ '' \"'' @ the (sanitized validation) @ ''\"'',
               line = Some lineNo\<rparr>]
           else
             [\<lparr>issueType = (if issue validation = Some ''Reserved name'' then Reserved else Invalid),
               issuePath = segment,
               message = (if truthy (issue validation) then the (issue validation)
                          else ''Invalid name''),
               line = Some lineNo\<rparr>]
         else [])"

definition validateSegments :: "nat \<Rightarrow> string list \<Rightarrow> PathIssue list" where
  "validateSegments lineNo segments =
     foldl (\<lambda>entryIssues segment. entryIssues @ segmentIssue lineNo segment) [] segments"

definition resolvedIssue :: "string \<Rightarrow> nat \<Rightarrow> PathIssue" where
  "resolvedIssue p ln =
     \<lparr>issueType = Conflict, issuePath = p, message = ''Resolved: treating as directory'',
      line = Some ln\<rparr>"

definition kindName :: "bool \<Rightarrow> string" where
  "kindName d = (if d then ''directory'' else ''file'')"

text \<open>
  Lines 114 to 197: the callback once the line has a non-empty normalized path. The
  result is the state after the callback together with the \<open>entry\<close> object built at
  line 185, whether or not it was pushed.
\<close>

definition acceptPath ::
  "ProcState \<Rightarrow> nat \<Rightarrow> bool \<Rightarrow> string \<Rightarrow> ProcState \<times> PathEntry" where
  "acceptPath st lineNo isDir p =
     (let depth = length (split (CHR ''/'') p);
          issues1 =
            (if depth > MAX_DEPTH then
               st_issues st @
                 [\<lparr>issueType = Depth, issuePath = p,
                   message = ''Path depth exceeds '' @ showNat MAX_DEPTH @ '' levels'',
                   line = Some lineNo\<rparr>]
             else st_issues st);
          segments = split (CHR ''/'') p;
          entryIssues1 = validateSegments lineNo segments;
          (seen2, entryIssues2) =
            (case seenPaths st p of
               Some existingLines0 \<Rightarrow>
                 (let existingLines = existingLines0 @ [lineNo]
                  in ((seenPaths st)(p \<mapsto> existingLines),
                      entryIssues1 @
                        [\<lparr>issueType = Duplicate, issuePath = p,
                          message = ''Duplicate path (also on lines: ''
                            @ join '', '' (map showNat (butlast existingLines)) @ '')'',
                          line = Some lineNo\<rparr>]))
             | None \<Rightarrow> ((seenPaths st)(p \<mapsto> [lineNo]), entryIssues1));
          existingEntry = pathToEntry st p;
          (entries2, entryIssues3) =
            (case existingEntry of
               Some i \<Rightarrow>
                 (let existing = st_entries st ! i
                  in if isDirectory existing \<noteq> isDir then
                       (if isDir \<and> \<not> isDirectory existing then
                          (st_entries st)
                            [i := existing\<lparr>isDirectory := True,
                                   issues := issues existing
                                     @ [resolvedIssue p (originalLine existing)]\<rparr>]
                        else st_entries st,
                        entryIssues2 @
                          [\<lparr>issueType = Conflict, issuePath = p,
                            message = ''Conflict: defined as both ''
                              @ kindName (isDirectory existing) @ '' and '' @ kindName isDir,
                            line = Some lineNo\<rparr>])
                     else (st_entries st, entryIssues2))
             | None \<Rightarrow> (st_entries st, entryIssues2));
          entry = \<lparr>path = p, isDirectory = isDir, originalLine = lineNo,
                   issues = entryIssues3\<rparr>;
          append =
            (case existingEntry of
               None \<Rightarrow> True
             | Some i \<Rightarrow> isDir \<and> \<not> isDirectory (entries2 ! i))
      in (\<lparr>st_issues = issues1 @ entryIssues3,
           st_entries = (if append then entries2 @ [entry] else entries2),
           seenPaths = seen2,
           pathToEntry = (if append then (pathToEntry st)(p \<mapsto> length entries2)
                          else pathToEntry st)\<rparr>,
          entry))"

text \<open>The path handed to \<open>normalizePath\<close>: the trimmed line without its directory slash.\<close>

definition lineTarget :: "string \<Rightarrow> string" where
  "lineTarget ln =
     (let trimmed = trim ln
      in if endsWith trimmed (CHR ''/'') then butlast trimmed else trimmed)"

text \<open>
  The callback of \<open>lines.forEach\<close> (lines 90 to 198). The \<open>catch\<close> block reads
  \<open>error.message\<close> when the thrown value is an \<open>Error\<close>, which it always is.
\<close>

fun processLine :: "ProcState \<Rightarrow> nat \<times> string \<Rightarrow> ProcState" where
  "processLine st (index, ln) =
     (let trimmed = trim ln
      in if trimmed = [] then st
         else
           let lineNo = index + 1;
               isDir = endsWith trimmed (CHR ''/'')
           in (case normalizePath (lineTarget ln) of
                 Inl err \<Rightarrow>
                   st\<lparr>st_issues := st_issues st @
                       [\<lparr>issueType = Invalid, issuePath = trimmed,
                         message = errorMessage err, line = Some lineNo\<rparr>]\<rparr>
               | Inr p \<Rightarrow> if p = [] then st else fst (acceptPath st lineNo isDir p)))"

declare processLine.simps [simp del]

text \<open>
  The state before the loop (lines 76 to 88), the result built after it (lines 200 to
  209), and \<open>processPaths\<close> itself. The outcome of \<open>validateInput\<close> is used for the
  warning only.
\<close>

definition initialState :: "string list \<Rightarrow> ProcState" where
  "initialState lines =
     \<lparr>st_issues =
        (if length lines > MAX_LINES then
           [\<lparr>issueType = Depth, issuePath = [],
             message = ''Input exceeds '' @ showNat MAX_LINES
               @ '' lines. Processing anyway, but performance may be affected.'',
             line = None\<rparr>]
         else []),
      st_entries = [], seenPaths = Map.empty, pathToEntry = Map.empty\<rparr>"

definition finish :: "ProcState \<Rightarrow> ProcessedPaths" where
  "finish st =
     \<lparr>entries = st_entries st, allIssues = st_issues st,
      folderCount = length (filter isDirectory (st_entries st)),
      fileCount = length (filter (\<lambda>e. \<not> isDirectory e) (st_entries st))\<rparr>"


definition processPaths :: "string \<Rightarrow> ProcessedPaths" where
  "processPaths input =
     (let lines = split (CHR 0x0A) input
      in finish (foldl processLine (initialState lines) (enumerate 0 lines)))"

section \<open>tree-builder.ts\<close>

text \<open>
  \<open>String.prototype.localeCompare\<close> depends on the locale of the runtime and is a
  parameter of the model. \<open>Array.prototype.sort\<close> is stable and, for a comparator that is
  consistent, returns the one stable ordering; the model is the stable insertion sort.
\<close>

type_synonym comparator = "string \<Rightarrow> string \<Rightarrow> int"

fun insertSorted :: "('a \<Rightarrow> 'a \<Rightarrow> int) \<Rightarrow> 'a \<Rightarrow> 'a list \<Rightarrow> 'a list" where
  "insertSorted cmp x [] = [x]"
| "insertSorted cmp x (y # ys) =
     (if cmp x y \<le> 0 then x # y # ys else y # insertSorted cmp x ys)"

definition arraySort :: "('a \<Rightarrow> 'a \<Rightarrow> int) \<Rightarrow> 'a list \<Rightarrow> 'a list" where
  "arraySort cmp xs = foldr (insertSorted cmp) xs []"

text \<open>The comparator of line 16 (entries) and the comparator of line 72 (sibling nodes).\<close>

definition compareEntries :: "comparator \<Rightarrow> PathEntry \<Rightarrow> PathEntry \<Rightarrow> int" where
  "compareEntries localeCompare a b =
     (if isDirectory a \<noteq> isDirectory b then (if isDirectory a then - 1 else 1)
      else localeCompare (path a) (path b))"

definition compareNodes :: "comparator \<Rightarrow> TreeNode \<Rightarrow> TreeNode \<Rightarrow> int" where
  "compareNodes localeCompare a b =
     (if nodeIsDirectory a \<noteq> nodeIsDirectory b then (if nodeIsDirectory a then - 1 else 1)
      else localeCompare (name a) (name b))"

text \<open>
  The tree is built by mutating node objects that \<open>nodeMap\<close> and the loop variable
  \<open>parent\<close> refer to. A reference to a node is its position below the root: the list of
  child indices leading to it. Positions stay valid during the build, because children
  are only ever pushed at the end of a \<open>children\<close> array until the final sort. A write
  through a position that is not in the tree would change nothing; the references held by
  \<open>nodeMap\<close> are shown below to be positions of the tree at every moment.
\<close>

type_synonym ref = "nat list"

fun nodeAt :: "TreeNode \<Rightarrow> ref \<Rightarrow> TreeNode option" where
  "nodeAt t [] = Some t"
| "nodeAt t (i # r) =
     (if i < length (children t) then nodeAt (children t ! i) r else None)"

fun updateAt :: "(TreeNode \<Rightarrow> TreeNode) \<Rightarrow> ref \<Rightarrow> TreeNode \<Rightarrow> TreeNode" where
  "updateAt f [] t = f t"
| "updateAt f (i # r) t =
     (case t of TreeNode n p d cs iss \<Rightarrow>
        TreeNode n p d (if i < length cs then cs[i := updateAt f r (cs ! i)] else cs) iss)"

text \<open>\<open>node.children.push(child)\<close> and \<open>node.issues.push(...pushed)\<close> on one node.\<close>

definition appendChild :: "TreeNode \<Rightarrow> TreeNode \<Rightarrow> TreeNode" where
  "appendChild child node =
     (case node of TreeNode n p d cs iss \<Rightarrow> TreeNode n p d (cs @ [child]) iss)"

definition appendIssues :: "PathIssue list \<Rightarrow> TreeNode \<Rightarrow> TreeNode" where
  "appendIssues pushed node =
     (case node of TreeNode n p d cs iss \<Rightarrow> TreeNode n p d cs (iss @ pushed))"

definition childCount :: "TreeNode \<Rightarrow> ref \<Rightarrow> nat" where
  "childCount t r = (case nodeAt t r of Some n \<Rightarrow> length (children n) | None \<Rightarrow> 0)"

record BuildState =
  root :: TreeNode
  nodeMap :: "string \<rightharpoonup> ref"

text \<open>
  The inner loop (lines 28 to 67) from part \<open>i\<close> on: \<open>part # rest\<close> are the parts still to
  visit, so \<open>isLast\<close> is \<open>rest = []\<close>. A pushed node receives the position after the
  parent's current children. Entries are values here: the model assumes what
  \<open>processPaths\<close> guarantees, that no two entries of the list share an \<open>issues\<close> array.
\<close>

fun walk :: "PathEntry \<Rightarrow> string list \<Rightarrow> string \<Rightarrow> ref \<Rightarrow> BuildState \<Rightarrow> BuildState" where
  "walk entry [] currentPath parent st = st"
| "walk entry (part # rest) currentPath parent st =
     (let isLast = (rest = []);
          segmentPath = (if currentPath \<noteq> [] then currentPath @ ''/'' @ part else part)
      in case nodeMap st segmentPath of
           None \<Rightarrow>
             (let r = parent @ [childCount (root st) parent]
              in if \<not> isLast \<or> isDirectory entry then
                   walk entry rest segmentPath r
                     \<lparr>root = updateAt (appendChild (TreeNode part segmentPath True [] []))
                               parent (root st),
                      nodeMap = (nodeMap st)(segmentPath \<mapsto> r)\<rparr>
                 else
                   \<lparr>root = updateAt (appendChild (TreeNode part segmentPath False []
                               (issues entry))) parent (root st),
                    nodeMap = (nodeMap st)(segmentPath \<mapsto> r)\<rparr>)
         | Some r \<Rightarrow>
             walk entry rest segmentPath r
               (if isLast \<and> \<not> isDirectory entry
                then st\<lparr>root := updateAt (appendIssues (issues entry)) r (root st)\<rparr>
                else st))"

declare walk.simps(2) [simp del]

text \<open>\<open>entry.path.split('/').filter(p => p)\<close>.\<close>

definition entryParts :: "PathEntry \<Rightarrow> string list" where
  "entryParts entry = filter (\<lambda>p. p \<noteq> []) (split (CHR ''/'') (path entry))"

text \<open>One iteration of the outer loop (lines 23 to 68), and the state before the loop.\<close>

definition insertEntry :: "BuildState \<Rightarrow> PathEntry \<Rightarrow> BuildState" where
  "insertEntry st entry = walk entry (entryParts entry) [] [] st"

definition initialBuild :: BuildState where
  "initialBuild = \<lparr>root = TreeNode [] [] True [] [], nodeMap = [[] \<mapsto> []]\<rparr>"

text \<open>\<open>sortTree\<close> (lines 71 to 79): sort the children of a node, then those of each child.\<close>

function sortTree :: "comparator \<Rightarrow> TreeNode \<Rightarrow> TreeNode" where
  "sortTree localeCompare (TreeNode n p d cs iss) =
     TreeNode n p d (map (sortTree localeCompare) (arraySort (compareNodes localeCompare) cs)) iss"
  by pat_completeness auto
termination
proof (relation "measure (\<lambda>(c, t). size t)")
  show "wf (measure (\<lambda>(c, t). size t))" by simp
next
  fix localeCompare :: comparator and n p d cs iss x
  assume x: "x \<in> set (arraySort (compareNodes localeCompare) cs)"
  have ins: "set (insertSorted c y ys) = insert y (set ys)"
    for c :: "TreeNode \<Rightarrow> TreeNode \<Rightarrow> int" and y ys
    by (induction ys) auto
  have "set (arraySort c ys) = set ys" for c :: "TreeNode \<Rightarrow> TreeNode \<Rightarrow> int" and ys
    by (induction ys) (simp_all add: arraySort_def ins)
  with x have "x \<in> set cs" by simp
  then have "size x \<le> size_list size cs" by (simp add: size_list_estimation')
  then show "((localeCompare, x), (localeCompare, TreeNode n p d cs iss))
               \<in> measure (\<lambda>(c, t). size t)"
    by simp
qed

text \<open>
  \<open>buildTree\<close>: sort a copy of the entries, insert them one by one, sort the tree, return
  the root.
\<close>

definition sortedEntries :: "comparator \<Rightarrow> PathEntry list \<Rightarrow> PathEntry list" where
  "sortedEntries localeCompare es = arraySort (compareEntries localeCompare) es"

definition buildTree :: "comparator \<Rightarrow> PathEntry list \<Rightarrow> TreeNode" where
  "buildTree localeCompare es =
     sortTree localeCompare
       (root (foldl insertEntry initialBuild (sortedEntries localeCompare es)))"

text \<open>
  A concrete consistent comparison, by code units, that stands in for \<open>localeCompare\<close>
  where an example has to be run.
\<close>

definition codeUnitCompare :: comparator where
  "codeUnitCompare a b = (if a = b then 0 else if a < b then - 1 else 1)"

section \<open>Notions used to state the properties\<close>

text \<open>
  A line declares the canonical path \<open>p\<close>, as a directory when \<open>d\<close> holds and as a file
  otherwise: it is not blank, normalization succeeds with the non-empty result \<open>p\<close>, and
  \<open>d\<close> tells whether the trimmed line ends with a slash. These are the lines that reach
  line 114 of the callback.
\<close>

definition declares :: "string \<Rightarrow> string \<Rightarrow> bool \<Rightarrow> bool" where
  "declares ln p d \<longleftrightarrow>
     trim ln \<noteq> [] \<and> normalizePath (lineTarget ln) = Inr p \<and> p \<noteq> [] \<and>
     d = endsWith (trim ln) (CHR ''/'')"

text \<open>
  An input for the examples: a file line and, two lines later, a directory line for the
  same path.
\<close>

definition fileThenDirectory :: string where
  "fileThenDirectory = ''docs/'' @ [CHR 0x0A] @ ''src/components'' @ [CHR 0x0A]
     @ ''README.md'' @ [CHR 0x0A] @ ''src/components/''"

text \<open>
  The entry object that \<open>pathToEntry\<close> holds for a path.
\<close>

definition entryFor :: "ProcState \<Rightarrow> string \<Rightarrow> PathEntry option" where
  "entryFor st p = map_option (\<lambda>i. st_entries st ! i) (pathToEntry st p)"

text \<open>
  The lookup tables and the list agree: a reference stored for a path is the slot of an
  entry with that path, every slot is the one stored for its path, and \<open>seenPaths\<close> and
  \<open>pathToEntry\<close> know the same paths.
\<close>

definition consistent :: "ProcState \<Rightarrow> bool" where
  "consistent st \<longleftrightarrow>
     (\<forall>p i. pathToEntry st p = Some i \<longrightarrow>
        i < length (st_entries st) \<and> path (st_entries st ! i) = p) \<and>
     (\<forall>i < length (st_entries st). pathToEntry st (path (st_entries st ! i)) = Some i) \<and>
     (\<forall>p. seenPaths st p = None \<longleftrightarrow> pathToEntry st p = None)"

text \<open>
  The write of lines 175 to 181 to an existing file entry.
\<close>

definition upgraded :: "PathEntry \<Rightarrow> PathEntry" where
  "upgraded e = e\<lparr>isDirectory := True,
                  issues := issues e @ [resolvedIssue (path e) (originalLine e)]\<rparr>"

text \<open>
  What one line does to the entry held for the path \<open>p\<close>: a line declaring \<open>p\<close> creates
  the entry when there is none, upgrades a file entry when it declares a directory, and
  leaves it alone otherwise; other lines do not touch it.
\<close>

definition lineEffect :: "string \<Rightarrow> nat \<times> string \<Rightarrow> PathEntry option \<Rightarrow> PathEntry option" where
  "lineEffect p x eo =
     (case x of (i, ln) \<Rightarrow>
        let d = endsWith (trim ln) (CHR ''/'')
        in if declares ln p d then
             (case eo of
                None \<Rightarrow> Some \<lparr>path = p, isDirectory = d, originalLine = Suc i,
                              issues = validateSegments (Suc i) (split (CHR ''/'') p)\<rparr>
              | Some e \<Rightarrow> Some (if d \<and> \<not> isDirectory e then upgraded e else e))
           else eo)"

text \<open>
  The issues of one line by kind, as lines 117 to 122, 154 to 159 and 167 to 172 build
  them from the state before the line.
\<close>

definition depthIssue :: "string \<Rightarrow> nat \<Rightarrow> PathIssue" where
  "depthIssue p n =
     \<lparr>issueType = Depth, issuePath = p, message = ''Path depth exceeds 30 levels'',
      line = Some n\<rparr>"

definition duplicateIssues :: "ProcState \<Rightarrow> nat \<Rightarrow> string \<Rightarrow> PathIssue list" where
  "duplicateIssues st n p =
     (case seenPaths st p of
        None \<Rightarrow> []
      | Some earlier \<Rightarrow>
          [\<lparr>issueType = Duplicate, issuePath = p,
            message = ''Duplicate path (also on lines: '' @ join '', '' (map showNat earlier) @ '')'',
            line = Some n\<rparr>])"

definition conflictIssues :: "ProcState \<Rightarrow> nat \<Rightarrow> bool \<Rightarrow> string \<Rightarrow> PathIssue list" where
  "conflictIssues st n d p =
     (case pathToEntry st p of
        None \<Rightarrow> []
      | Some i \<Rightarrow>
          if isDirectory (st_entries st ! i) \<noteq> d then
            [\<lparr>issueType = Conflict, issuePath = p,
              message = ''Conflict: defined as both '' @ kindName (isDirectory (st_entries st ! i))
                @ '' and '' @ kindName d,
              line = Some n\<rparr>]
          else [])"

text \<open>
  The relation between the issues of the entries and the top-level list that holds
  throughout the loop.
\<close>

definition issuesAccounted :: "ProcState \<Rightarrow> bool" where
  "issuesAccounted st \<longleftrightarrow>
     (\<forall>e\<in>set (st_entries st). \<forall>i\<in>set (issues e).
        i \<in> set (st_issues st) \<or> i = resolvedIssue (path e) (originalLine e)) \<and>
     (\<forall>i\<in>set (st_issues st). message i \<noteq> ''Resolved: treating as directory'')"

text \<open>
  Inputs of the examples: a file then a directory at the same path, the same with an
  offending character, the six lines of the specification, a path of 31 segments, and
  the state after a first file line.
\<close>

definition conflictExample :: string where
  "conflictExample = ''src/components'' @ [CHR 0x0A] @ ''src/components/''"

definition sanitizedConflict :: string where
  "sanitizedConflict = ''a<b'' @ [CHR 0x0A] @ ''a<b/''"

definition sixLines :: string where
  "sixLines = ''src/components/'' @ [CHR 0x0A] @ ''src/components/Button.tsx'' @ [CHR 0x0A]
     @ ''src/components/Button.tsx'' @ [CHR 0x0A] @ ''src/utils/helpers.ts'' @ [CHR 0x0A]
     @ ''src/utils/invalid<>name.ts'' @ [CHR 0x0A] @ ''src/README.md''"



text \<open>
  The fields of a node other than its children, and the fields found at a position.
\<close>

definition shallow :: "TreeNode \<Rightarrow> TreeNode" where
  "shallow n = TreeNode (name n) (nodePath n) (nodeIsDirectory n) [] (nodeIssues n)"

definition labelAt :: "TreeNode \<Rightarrow> ref \<Rightarrow> TreeNode option" where
  "labelAt t r = map_option shallow (nodeAt t r)"

text \<open>
  \<open>segmentPath\<close> as a function of \<open>currentPath\<close> and \<open>part\<close> (line 31).
\<close>

definition childPath :: "string \<Rightarrow> string \<Rightarrow> string" where
  "childPath parentPath nm = (if parentPath \<noteq> [] then parentPath @ ''/'' @ nm else nm)"

text \<open>
  The invariant of the build. \<open>nodeMap\<close> holds exactly the nodes of the tree, each under
  its own path; the path of a child is the path of its parent extended by the child's
  non-empty name; the root stays registered under the empty path.
\<close>

definition registered :: "BuildState \<Rightarrow> bool" where
  "registered st \<longleftrightarrow>
     (\<forall>k r. nodeMap st k = Some r \<longleftrightarrow> map_option nodePath (labelAt (root st) r) = Some k)"

definition linked :: "TreeNode \<Rightarrow> bool" where
  "linked t \<longleftrightarrow>
     (\<forall>r i n c. labelAt t r = Some n \<longrightarrow> labelAt t (r @ [i]) = Some c \<longrightarrow>
        nodePath c = childPath (nodePath n) (name c) \<and> name c \<noteq> [])"

definition buildInv :: "BuildState \<Rightarrow> bool" where
  "buildInv st \<longleftrightarrow> registered st \<and> linked (root st) \<and> nodeMap st [] = Some []"

text \<open>
  The issues of the node registered under a path (none when no node is).
\<close>

definition issuesOf :: "BuildState \<Rightarrow> string \<Rightarrow> PathIssue list" where
  "issuesOf st k =
     (case nodeMap st k of
        None \<Rightarrow> []
      | Some r \<Rightarrow> (case labelAt (root st) r of None \<Rightarrow> [] | Some n \<Rightarrow> nodeIssues n))"

text \<open>
  A property that holds at a node and at all nodes below it.
\<close>

fun everyNode :: "(TreeNode \<Rightarrow> bool) \<Rightarrow> TreeNode \<Rightarrow> bool" where
  "everyNode P (TreeNode n p d cs iss) =
     (P (TreeNode n p d cs iss) \<and> list_all (everyNode P) cs)"

text \<open>
  The issues of the file entries of a list that lead to the path \<open>k\<close>, in list order. An
  entry leads to the path made of its non-empty parts joined by \<open>/\<close>; for a canonical
  path, as \<open>processPaths\<close> produces it, that is the entry's \<open>path\<close>.
\<close>

definition fileIssuesAt :: "PathEntry list \<Rightarrow> string \<Rightarrow> PathIssue list" where
  "fileIssuesAt es k =
     concat (map issues
       (filter (\<lambda>e. \<not> isDirectory e \<and> entryParts e \<noteq> [] \<and> join ''/'' (entryParts e) = k) es))"

text \<open>
  The structural invariant at one node: children unique by name, and each child's path
  non-empty and equal to the node's path joined with the child's name.
\<close>

definition nodeInvariant :: "TreeNode \<Rightarrow> bool" where
  "nodeInvariant n \<longleftrightarrow>
     distinct (map name (children n)) \<and>
     list_all (\<lambda>c. nodePath c = childPath (nodePath n) (name c) \<and> nodePath c \<noteq> [])
       (children n)"

text \<open>
  The order of siblings: a directory before a file, and within one kind the name that the
  locale comparison does not put after the other.
\<close>

definition goesBefore :: "comparator \<Rightarrow> TreeNode \<Rightarrow> TreeNode \<Rightarrow> bool" where
  "goesBefore localeCompare a b \<longleftrightarrow>
     (nodeIsDirectory a \<and> \<not> nodeIsDirectory b) \<or>
     (nodeIsDirectory a = nodeIsDirectory b \<and> localeCompare (name a) (name b) \<le> 0)"

definition childrenOrdered :: "comparator \<Rightarrow> TreeNode \<Rightarrow> bool" where
  "childrenOrdered localeCompare n \<longleftrightarrow> sorted_wrt (goesBefore localeCompare) (children n)"

text \<open>
  A consistent comparator in the sense of \<open>Array.prototype.sort\<close>, as far as the order
  is concerned: total and transitive.
\<close>

definition consistentCompare :: "comparator \<Rightarrow> bool" where
  "consistentCompare localeCompare \<longleftrightarrow>
     (\<forall>a b. localeCompare a b \<le> 0 \<or> localeCompare b a \<le> 0) \<and>
     (\<forall>a b c. localeCompare a b \<le> 0 \<longrightarrow> localeCompare b c \<le> 0 \<longrightarrow> localeCompare a c \<le> 0)"

text \<open>
  Entries of the examples for the tree: a file \<open>a\<close> with one issue, then a directory \<open>b\<close>.
\<close>

definition exampleEntries :: "PathEntry list" where
  "exampleEntries =
     [\<lparr>path = ''a'', isDirectory = False, originalLine = 1,
       issues = [\<lparr>issueType = Duplicate, issuePath = ''a'',
                  message = ''Duplicate path (also on lines: 1)'', line = Some 3\<rparr>]\<rparr>,
      \<lparr>path = ''b'', isDirectory = True, originalLine = 2, issues = []\<rparr>]"

section \<open>Sanitising a segment\<close>

text \<open>
  C3. The sanitizer is meant to replace every offending character, which would make it
  idempotent. On the segment \<open><>\<close> the code rewrites the first offending character only:
  the result still holds \<open>>\<close>, and a second pass changes it again.
\<close>

theorem sanitizeFileName_first_match_only:
  "sanitizeFileName ''<>'' = ''->'' \<and>
   sanitizeFileName (sanitizeFileName ''<>'') = ''--'' \<and>
   sanitizeFileName (sanitizeFileName ''<>'') \<noteq> sanitizeFileName ''<>'' \<and>
   sanitizeFileName ''file<>name.ts'' = ''file->name.ts''"
  by (simp add: INVALID_CHARS_def)

section \<open>Properties of the path processor\<close>

subsection \<open>The lookup tables and the entry kept for a path\<close>

lemma consistentD:
  assumes "consistent st"
  shows "pathToEntry st p = Some i \<Longrightarrow> i < length (st_entries st)"
    and "pathToEntry st p = Some i \<Longrightarrow> path (st_entries st ! i) = p"
    and "i < length (st_entries st) \<Longrightarrow> pathToEntry st (path (st_entries st ! i)) = Some i"
    and "seenPaths st p = None \<longleftrightarrow> pathToEntry st p = None"
  using assms by (auto simp: consistent_def)

lemma split_not_Nil [simp]: "split c s \<noteq> []"
  by (induction s) (auto split: list.splits)

lemma normalizePath_Inl:
  "normalizePath p = Inl e \<longleftrightarrow>
     ''..'' \<in> set (slashSegments p) \<and> e = Error ''Parent directory references (..) are not allowed''"
  by (auto simp: normalizePath_def normalParts_def Let_def list_ex_iff)

lemma foldl_push: "foldl (\<lambda>acc x. acc @ f x) acc xs = acc @ concat (map f xs)"
  by (induction xs arbitrary: acc) auto

lemma validateSegments_concat:
  "validateSegments n segs = concat (map (segmentIssue n) segs)"
  by (simp add: validateSegments_def foldl_push)

lemma acceptPath_new:
  assumes "pathToEntry st p = None" "seenPaths st p = None"
  shows "st_entries (fst (acceptPath st n d p)) =
           st_entries st @ [\<lparr>path = p, isDirectory = d, originalLine = n,
                             issues = validateSegments n (split (CHR ''/'') p)\<rparr>]"
    and "pathToEntry (fst (acceptPath st n d p)) = (pathToEntry st)(p \<mapsto> length (st_entries st))"
    and "seenPaths (fst (acceptPath st n d p)) = (seenPaths st)(p \<mapsto> [n])"
  using assms by (simp_all add: acceptPath_def Let_def)

lemma acceptPath_old:
  assumes "pathToEntry st p = Some i" "i < length (st_entries st)" "path (st_entries st ! i) = p"
  shows "st_entries (fst (acceptPath st n d p)) =
           (if d \<and> \<not> isDirectory (st_entries st ! i)
            then (st_entries st)[i := upgraded (st_entries st ! i)] else st_entries st)"
    and "pathToEntry (fst (acceptPath st n d p)) = pathToEntry st"
    and "seenPaths (fst (acceptPath st n d p)) p \<noteq> None"
    and "q \<noteq> p \<Longrightarrow> seenPaths (fst (acceptPath st n d p)) q = seenPaths st q"
  using assms by (auto simp add: acceptPath_def Let_def upgraded_def split: option.splits prod.splits)

lemma processLine_skip:
  assumes "\<not> (\<exists>p d. declares ln p d)"
  shows "st_entries (processLine st (i, ln)) = st_entries st"
    and "pathToEntry (processLine st (i, ln)) = pathToEntry st"
    and "seenPaths (processLine st (i, ln)) = seenPaths st"
  using assms by (auto simp: processLine.simps declares_def Let_def split: sum.splits)

lemma processLine_declares:
  "declares ln p d \<Longrightarrow> processLine st (i, ln) = fst (acceptPath st (Suc i) d p)"
  by (auto simp: processLine.simps declares_def Let_def)

lemma declares_fun: "declares ln p d \<Longrightarrow> declares ln p' d' \<Longrightarrow> p' = p \<and> d' = d"
  by (auto simp: declares_def)

lemma path_upgraded [simp]: "path (upgraded e) = path e"
  and isDirectory_upgraded [simp]: "isDirectory (upgraded e)"
  by (simp_all add: upgraded_def)

lemma consistent_acceptPath:
  assumes "consistent st"
  shows "consistent (fst (acceptPath st n d p))"
proof (cases "pathToEntry st p")
  case None
  with assms have seen: "seenPaths st p = None" by (simp add: consistent_def)
  note new = acceptPath_new [OF None seen, where n = n and d = d]
  note c = consistentD [OF assms]
  have "i < Suc (length (st_entries st)) \<and>
        path ((st_entries st @ [\<lparr>path = p, isDirectory = d, originalLine = n,
          issues = validateSegments n (split (CHR ''/'') p)\<rparr>]) ! i) = q"
    if "((pathToEntry st)(p \<mapsto> length (st_entries st))) q = Some i" for q i
    using that c(1,2) [of q i] by (auto simp: nth_append split: if_splits)
  moreover have "((pathToEntry st)(p \<mapsto> length (st_entries st)))
        (path ((st_entries st @ [\<lparr>path = p, isDirectory = d, originalLine = n,
          issues = validateSegments n (split (CHR ''/'') p)\<rparr>]) ! i)) = Some i"
    if "i < Suc (length (st_entries st))" for i
    using that c(3) [of i] None by (auto simp: nth_append less_Suc_eq)
  moreover have "((seenPaths st)(p \<mapsto> [n])) q = None \<longleftrightarrow>
        ((pathToEntry st)(p \<mapsto> length (st_entries st))) q = None" for q
    using c(4) [of q] by simp
  ultimately show ?thesis
    unfolding consistent_def new by simp
next
  case (Some i)
  with assms have i: "i < length (st_entries st)" "path (st_entries st ! i) = p"
    by (auto simp: consistent_def)
  note old = acceptPath_old [OF Some i, where n = n and d = d]
  have paths: "path (st_entries (fst (acceptPath st n d p)) ! j) = path (st_entries st ! j)"
    if "j < length (st_entries st)" for j
    using that i by (cases "j = i") (auto simp: old)
  have len: "length (st_entries (fst (acceptPath st n d p))) = length (st_entries st)"
    by (simp add: old)
  have seen: "seenPaths (fst (acceptPath st n d p)) q = None \<longleftrightarrow> pathToEntry st q = None" for q
    using old(3) old(4) [of q] assms Some by (cases "q = p") (auto simp: consistent_def)
  show ?thesis
    unfolding consistent_def len old(2)
    using assms paths seen by (auto simp: consistent_def)
qed

lemma consistent_processLine: "consistent st \<Longrightarrow> consistent (processLine st x)"
proof (cases x)
  case (Pair i ln)
  assume c: "consistent st"
  show ?thesis
  proof (cases "\<exists>p d. declares ln p d")
    case True
    then show ?thesis using c Pair by (auto simp: processLine_declares consistent_acceptPath)
  next
    case False
    then show ?thesis using c Pair by (simp add: consistent_def processLine_skip)
  qed
qed

lemma entryFor_acceptPath:
  assumes "consistent st"
  shows "entryFor (fst (acceptPath st n d p)) q =
           (if q = p then
              (case entryFor st p of
                 None \<Rightarrow> Some \<lparr>path = p, isDirectory = d, originalLine = n,
                               issues = validateSegments n (split (CHR ''/'') p)\<rparr>
               | Some e \<Rightarrow> Some (if d \<and> \<not> isDirectory e then upgraded e else e))
            else entryFor st q)"
proof (cases "pathToEntry st p")
  case None
  with assms have seen: "seenPaths st p = None" by (simp add: consistent_def)
  note new = acceptPath_new [OF None seen, where n = n and d = d]
  show ?thesis
  proof (cases "pathToEntry st q")
    case None
    then show ?thesis using \<open>pathToEntry st p = None\<close> by (auto simp: entryFor_def new)
  next
    case (Some j)
    then have "j < length (st_entries st)" using consistentD(1) [OF assms] by blast
    then show ?thesis
      using Some \<open>pathToEntry st p = None\<close> by (auto simp: entryFor_def new nth_append)
  qed
next
  case (Some i)
  with assms have i: "i < length (st_entries st)" "path (st_entries st ! i) = p"
    by (auto simp: consistent_def)
  note old = acceptPath_old [OF Some i, where n = n and d = d]
  show ?thesis
  proof (cases "q = p")
    case True
    then show ?thesis using Some i by (simp add: entryFor_def old)
  next
    case False
    show ?thesis
    proof (cases "pathToEntry st q")
      case None
      then show ?thesis using False by (simp add: entryFor_def old)
    next
      case (Some j)
      with assms have "path (st_entries st ! j) = q" by (auto simp: consistent_def)
      with i False have "j \<noteq> i" by auto
      then show ?thesis using Some False by (simp add: entryFor_def old)
    qed
  qed
qed

lemma entryFor_processLine:
  assumes "consistent st"
  shows "entryFor (processLine st x) p = lineEffect p x (entryFor st p)"
proof (cases x)
  case (Pair i ln)
  show ?thesis
  proof (cases "\<exists>q d. declares ln q d")
    case True
    then obtain q d where qd: "declares ln q d" by blast
    then have d: "d = endsWith (trim ln) (CHR ''/'')" by (simp add: declares_def)
    show ?thesis
    proof (cases "q = p")
      case True
      then show ?thesis
        using qd d Pair assms
        by (simp add: processLine_declares [OF qd] entryFor_acceptPath lineEffect_def Let_def)
    next
      case False
      then have "\<not> declares ln p (endsWith (trim ln) (CHR ''/''))"
        using declares_fun [OF qd] by blast
      then show ?thesis
        using False Pair assms
        by (simp add: processLine_declares [OF qd] entryFor_acceptPath lineEffect_def Let_def)
    qed
  next
    case False
    then show ?thesis
      using Pair by (auto simp: entryFor_def processLine_skip lineEffect_def Let_def)
  qed
qed

lemma foldl_processLine:
  assumes "consistent st"
  shows "consistent (foldl processLine st xs)"
    and "entryFor (foldl processLine st xs) p =
           foldl (\<lambda>eo x. lineEffect p x eo) (entryFor st p) xs"
  using assms
  by (induction xs arbitrary: st)
     (simp_all add: consistent_processLine entryFor_processLine)

lemma consistent_initialState: "consistent (initialState lines)"
  by (simp add: consistent_def initialState_def)

lemma entryFor_initialState: "entryFor (initialState lines) p = None"
  by (simp add: entryFor_def initialState_def)

lemma filter_single:
  assumes "i < length xs" "\<And>j. j < length xs \<Longrightarrow> P (xs ! j) \<longleftrightarrow> j = i"
  shows "filter P xs = [xs ! i]"
proof -
  have xs: "xs = take i xs @ xs ! i # drop (Suc i) xs"
    using assms(1) by (rule id_take_nth_drop)
  have a: "filter P (take i xs) = []"
    using assms by (auto simp: filter_empty_conv in_set_conv_nth)
  have b: "filter P (drop (Suc i) xs) = []"
    using assms by (auto simp: filter_empty_conv in_set_conv_nth)
  have c: "P (xs ! i)" using assms by simp
  have "filter P xs = filter P (take i xs @ xs ! i # drop (Suc i) xs)"
    using xs by simp
  then show ?thesis using a b c by simp
qed

lemma entries_for_path:
  assumes "consistent st" "entryFor st p = Some e"
  shows "filter (\<lambda>e. path e = p) (st_entries st) = [e]"
proof -
  from assms(2) obtain i where i: "pathToEntry st p = Some i" "e = st_entries st ! i"
    by (auto simp: entryFor_def)
  with assms(1) have len: "i < length (st_entries st)" by (auto simp: consistent_def)
  have "path (st_entries st ! j) = p \<longleftrightarrow> j = i" if "j < length (st_entries st)" for j
    using that assms(1) i(1) by (auto simp: consistent_def)
  from filter_single [of i "st_entries st" "\<lambda>e. path e = p", OF len this]
  show ?thesis using i by simp
qed

lemma lineEffect_other:
  "\<forall>x\<in>set xs. \<forall>d. \<not> declares (snd x) p d \<Longrightarrow>
     foldl (\<lambda>eo x. lineEffect p x eo) eo xs = eo"
  by (induction xs arbitrary: eo) (auto simp: lineEffect_def Let_def)

lemma lineEffect_file_or_dir:
  assumes "\<not> isDirectory F" "eo = Some F \<or> eo = Some (upgraded F)"
  shows "foldl (\<lambda>eo x. lineEffect p x eo) eo xs = Some F \<or>
         foldl (\<lambda>eo x. lineEffect p x eo) eo xs = Some (upgraded F)"
  using assms(2)
proof (induction xs arbitrary: eo)
  case Nil
  then show ?case by simp
next
  case (Cons x xs)
  have "lineEffect p x eo = Some F \<or> lineEffect p x eo = Some (upgraded F)"
    using Cons.prems assms(1) by (auto simp: lineEffect_def Let_def split: prod.splits)
  from Cons.IH [OF this] show ?case by simp
qed

lemma lineEffect_dir:
  "isDirectory D \<Longrightarrow> foldl (\<lambda>eo x. lineEffect p x eo) (Some D) xs = Some D"
  by (induction xs) (auto simp: lineEffect_def Let_def split: prod.splits)

lemma snd_enumerate: "x \<in> set (enumerate n xs) \<Longrightarrow> snd x \<in> set xs"
  by (cases x) (auto simp: in_set_enumerate_eq)

text \<open>
  C1. When a canonical path is first declared by a file line and a later line declares it
  as a directory, the final entries hold exactly one entry for the path. It is the entry
  the file line created, in its slot and with its own line number, now a directory, and
  its issues are those of the file line followed by one conflict issue
  \<open>Resolved: treating as directory\<close> attributed to that line. The directory line adds
  no entry.
\<close>

theorem file_then_directory:
  assumes lines: "split (CHR 0x0A) input = pre @ [fileLine] @ mid @ [dirLine] @ post"
    and first: "\<forall>l\<in>set pre. \<forall>d. \<not> declares l p d"
    and isFile: "declares fileLine p False"
    and isDir: "declares dirLine p True"
  shows "filter (\<lambda>e. path e = p) (entries (processPaths input)) =
           [\<lparr>path = p, isDirectory = True, originalLine = Suc (length pre),
             issues = validateSegments (Suc (length pre)) (split (CHR ''/'') p)
                        @ [resolvedIssue p (Suc (length pre))]\<rparr>]"
proof -
  let ?n = "length pre"
  let ?F = "\<lparr>path = p, isDirectory = False, originalLine = Suc ?n,
              issues = validateSegments (Suc ?n) (split (CHR ''/'') p)\<rparr>"
  let ?step = "\<lambda>eo x. lineEffect p x eo"
  let ?st = "foldl processLine (initialState (split (CHR 0x0A) input))
               (enumerate 0 (split (CHR 0x0A) input))"
  have fileEnds: "\<not> endsWith (trim fileLine) (CHR ''/'')"
    and dirEnds: "endsWith (trim dirLine) (CHR ''/'')"
    using isFile isDir by (auto simp: declares_def)
  have "\<forall>x\<in>set (enumerate 0 pre). \<forall>d. \<not> declares (snd x) p d"
    using first snd_enumerate by blast
  then have s1: "foldl ?step None (enumerate 0 pre) = None"
    by (rule lineEffect_other)
  have s2: "lineEffect p (?n, fileLine) None = Some ?F"
    using isFile fileEnds by (simp add: lineEffect_def)
  have s3: "foldl ?step (Some ?F) (enumerate (Suc ?n) mid) = Some ?F \<or>
            foldl ?step (Some ?F) (enumerate (Suc ?n) mid) = Some (upgraded ?F)"
    by (rule lineEffect_file_or_dir) simp_all
  have s4: "lineEffect p (k, dirLine) eo = Some (upgraded ?F)"
    if "eo = Some ?F \<or> eo = Some (upgraded ?F)" for k eo
    using that isDir dirEnds by (auto simp: lineEffect_def)
  have "entryFor ?st p =
          foldl ?step None (enumerate 0 (pre @ [fileLine] @ mid @ [dirLine] @ post))"
    unfolding foldl_processLine(2) [OF consistent_initialState] entryFor_initialState lines ..
  also have "\<dots> = Some (upgraded ?F)"
    using s3 by (auto simp: enumerate_append_eq s1 s2 s4 lineEffect_dir)
  finally have "entryFor ?st p = Some (upgraded ?F)" .
  moreover have "consistent ?st"
    by (rule foldl_processLine(1) [OF consistent_initialState])
  ultimately have "filter (\<lambda>e. path e = p) (st_entries ?st) = [upgraded ?F]"
    by (rule entries_for_path [rotated])
  then show ?thesis
    by (simp add: processPaths_def Let_def finish_def upgraded_def)
qed

theorem file_then_directory_witness:
  "split (CHR 0x0A) fileThenDirectory =
     [''docs/''] @ [''src/components''] @ [''README.md''] @ [''src/components/''] @ [] \<and>
   declares ''src/components'' ''src/components'' False \<and>
   declares ''src/components/'' ''src/components'' True \<and>
   filter (\<lambda>e. path e = ''src/components'') (entries (processPaths fileThenDirectory)) =
     [\<lparr>path = ''src/components'', isDirectory = True, originalLine = 2,
       issues = [\<lparr>issueType = Conflict, issuePath = ''src/components'',
                  message = ''Resolved: treating as directory'', line = Some 2\<rparr>]\<rparr>]"
proof -
  have l: "split (CHR 0x0A) fileThenDirectory =
     [''docs/''] @ [''src/components''] @ [''README.md''] @ [''src/components/''] @ []"
    unfolding fileThenDirectory_def by code_simp
  have "normalizePath (lineTarget ''docs/'') = Inr ''docs''"
    by code_simp
  then have p: "\<forall>l\<in>set [''docs/'']. \<forall>d. \<not> declares l ''src/components'' d"
    by (simp add: declares_def)
  have f: "declares ''src/components'' ''src/components'' False"
    by code_simp
  have d: "declares ''src/components/'' ''src/components'' True"
    by code_simp
  have v: "validateSegments (Suc (Suc 0)) [''src'', ''components''] = []"
    by code_simp
  show ?thesis
    using file_then_directory [OF l p f d] l f d
    by (simp add: v resolvedIssue_def)
qed

subsection \<open>The issues of one line\<close>

lemma showNat_MAX_DEPTH: "showNat MAX_DEPTH = ''30''"
  by code_simp


lemma acceptPath_entry:
  "snd (acceptPath st n d p) =
     \<lparr>path = p, isDirectory = d, originalLine = n,
      issues = concat (map (segmentIssue n) (split (CHR ''/'') p))
                 @ duplicateIssues st n p @ conflictIssues st n d p\<rparr>"
  by (auto simp: acceptPath_def Let_def validateSegments_concat duplicateIssues_def
        conflictIssues_def split: option.splits prod.splits)

lemma acceptPath_issues:
  "st_issues (fst (acceptPath st n d p)) =
     st_issues st
       @ (if MAX_DEPTH < length (split (CHR ''/'') p) then [depthIssue p n] else [])
       @ issues (snd (acceptPath st n d p))"
  by (auto simp: acceptPath_def Let_def depthIssue_def showNat_MAX_DEPTH
        split: option.splits prod.splits)


lemma segmentIssue_message:
  "i \<in> set (segmentIssue n s) \<Longrightarrow> message i \<noteq> ''Resolved: treating as directory''"
  by (auto simp: segmentIssue_def Let_def validateFileName_def truthy_def split: if_splits)


lemma entry_issue_message:
  "i \<in> set (issues (snd (acceptPath st n d p))) \<Longrightarrow>
     message i \<noteq> ''Resolved: treating as directory''"
  by (auto simp: acceptPath_entry duplicateIssues_def conflictIssues_def
        dest: segmentIssue_message split: option.splits if_splits)

lemma blank_target: "trim ln = [] \<Longrightarrow> slashSegments (lineTarget ln) = [[]]"
  by (simp add: lineTarget_def endsWith_def slashSegments_def stripSlashes_def
        backslashesToSlashes_def)

lemma processLine_throw:
  assumes "normalizePath (lineTarget ln) = Inl e"
  shows "processLine st (index, ln) =
           st\<lparr>st_issues := st_issues st @
             [\<lparr>issueType = Invalid, issuePath = trim ln,
               message = ''Parent directory references (..) are not allowed'',
               line = Some (index + 1)\<rparr>]\<rparr>"
proof -
  from assms have dots: "''..'' \<in> set (slashSegments (lineTarget ln))"
    and e: "e = Error ''Parent directory references (..) are not allowed''"
    by (simp_all add: normalizePath_Inl)
  from dots have "trim ln \<noteq> []"
    using blank_target [of ln] by auto
  then show ?thesis
    using assms e by (simp add: processLine.simps)
qed

text \<open>
  C6. A line whose path, after the slash handling of normalization, has a segment \<open>..\<close>
  leaves the entries and both lookup tables as they were and appends exactly one issue:
  an \<open>invalid\<close> issue for that line with the message of the thrown error.
\<close>

theorem parent_reference_rejected:
  assumes "''..'' \<in> set (slashSegments (lineTarget ln))"
  shows "processLine st (index, ln) =
           st\<lparr>st_issues := st_issues st @
             [\<lparr>issueType = Invalid, issuePath = trim ln,
               message = ''Parent directory references (..) are not allowed'',
               line = Some (index + 1)\<rparr>]\<rparr>"
proof -
  from assms obtain e where "normalizePath (lineTarget ln) = Inl e"
    by (auto simp: normalizePath_Inl)
  then show ?thesis by (rule processLine_throw)
qed

theorem parent_reference_rejected_witness:
  "''..'' \<in> set (slashSegments (lineTarget '' src/../components/'')) \<and>
   processLine (initialState []) (6, '' src/../components/'') =
     \<lparr>st_issues =
        [\<lparr>issueType = Invalid, issuePath = ''src/../components/'',
          message = ''Parent directory references (..) are not allowed'',
          line = Some 7\<rparr>],
      st_entries = [], seenPaths = Map.empty, pathToEntry = Map.empty\<rparr>"
proof -
  have h: "''..'' \<in> set (slashSegments (lineTarget '' src/../components/''))"
    by code_simp
  have t: "trim '' src/../components/'' = ''src/../components/''"
    by code_simp
  show ?thesis
    using parent_reference_rejected [OF h, of "initialState []" 6] h
    by (simp add: t initialState_def)
qed

subsection \<open>Entry issues and the top-level list\<close>

lemma issuesAccounted_acceptPath:
  assumes c: "consistent st" and k: "issuesAccounted st"
  shows "issuesAccounted (fst (acceptPath st n d p))"
proof -
  let ?st' = "fst (acceptPath st n d p)"
  let ?R = "''Resolved: treating as directory''"
  have top: "set (st_issues st) \<subseteq> set (st_issues ?st')"
    and own: "set (issues (snd (acceptPath st n d p))) \<subseteq> set (st_issues ?st')"
    by (auto simp: acceptPath_issues)
  have msgs: "\<forall>i\<in>set (st_issues ?st'). message i \<noteq> ?R"
    using k entry_issue_message [of _ st n d p]
    by (auto simp: acceptPath_issues issuesAccounted_def depthIssue_def)
  have old: "i \<in> set (st_issues ?st') \<or> i = resolvedIssue (path e) (originalLine e)"
    if "e \<in> set (st_entries st)" "i \<in> set (issues e)" for e i
    using that k top by (auto simp: issuesAccounted_def)
  have "i \<in> set (st_issues ?st') \<or> i = resolvedIssue (path e) (originalLine e)"
    if e: "e \<in> set (st_entries ?st')" and i: "i \<in> set (issues e)" for e i
  proof (cases "pathToEntry st p")
    case None
    with c have seen: "seenPaths st p = None" by (simp add: consistent_def)
    have "snd (acceptPath st n d p) =
            \<lparr>path = p, isDirectory = d, originalLine = n,
             issues = validateSegments n (split (CHR ''/'') p)\<rparr>"
      using None seen
      by (simp add: acceptPath_entry duplicateIssues_def conflictIssues_def
            validateSegments_concat)
    with e acceptPath_new(1) [OF None seen, of n d]
    have "e \<in> set (st_entries st) \<or> e = snd (acceptPath st n d p)" by auto
    then show ?thesis using old own i by auto
  next
    case (Some j)
    with c have j: "j < length (st_entries st)" "path (st_entries st ! j) = p"
      by (auto simp: consistent_def)
    from e acceptPath_old(1) [OF Some j, of n d]
    have "e \<in> set (st_entries st) \<or> e = upgraded (st_entries st ! j)"
      using set_update_subset_insert [of "st_entries st" j "upgraded (st_entries st ! j)"]
      by (auto split: if_splits)
    then show ?thesis
    proof
      assume "e \<in> set (st_entries st)"
      then show ?thesis using old i by blast
    next
      assume u: "e = upgraded (st_entries st ! j)"
      have "st_entries st ! j \<in> set (st_entries st)" using j by simp
      then show ?thesis
        using old [of "st_entries st ! j" i] i u by (auto simp: upgraded_def)
    qed
  qed
  with msgs show ?thesis by (simp add: issuesAccounted_def)
qed

lemma processLine_skip_issues:
  assumes "\<not> (\<exists>p d. declares ln p d)"
  shows "st_issues (processLine st (i, ln)) = st_issues st \<or>
         st_issues (processLine st (i, ln)) = st_issues st @
           [\<lparr>issueType = Invalid, issuePath = trim ln,
             message = ''Parent directory references (..) are not allowed'',
             line = Some (i + 1)\<rparr>]"
proof (cases "normalizePath (lineTarget ln)")
  case (Inl e)
  then show ?thesis by (simp add: processLine_throw)
next
  case (Inr p)
  then show ?thesis
    using assms by (auto simp: processLine.simps declares_def Let_def)
qed

lemma issuesAccounted_processLine:
  assumes "consistent st" "issuesAccounted st"
  shows "issuesAccounted (processLine st x)"
proof (cases x)
  case (Pair i ln)
  show ?thesis
  proof (cases "\<exists>p d. declares ln p d")
    case True
    then show ?thesis
      using assms Pair by (auto simp: processLine_declares issuesAccounted_acceptPath)
  next
    case False
    have sub: "set (st_issues st) \<subseteq> set (st_issues (processLine st (i, ln)))"
      using processLine_skip_issues [OF False, of st i] by auto
    have msg: "\<forall>k\<in>set (st_issues (processLine st (i, ln))).
        message k \<noteq> ''Resolved: treating as directory''"
      using processLine_skip_issues [OF False, of st i] assms(2)
      by (auto simp: issuesAccounted_def)
    have "\<forall>e\<in>set (st_entries st). \<forall>k\<in>set (issues e).
        k \<in> set (st_issues (processLine st (i, ln))) \<or>
        k = resolvedIssue (path e) (originalLine e)"
      using assms(2) sub unfolding issuesAccounted_def by blast
    with msg show ?thesis
      unfolding issuesAccounted_def Pair processLine_skip(1) [OF False] by blast
  qed
qed

lemma issuesAccounted_foldl:
  "consistent st \<Longrightarrow> issuesAccounted st \<Longrightarrow> issuesAccounted (foldl processLine st xs)"
  by (induction xs arbitrary: st)
     (simp_all add: consistent_processLine issuesAccounted_processLine)

lemma issuesAccounted_initialState: "issuesAccounted (initialState lines)"
  by (simp add: issuesAccounted_def initialState_def)

lemma conflictExample_run:
  "processPaths conflictExample =
     \<lparr>entries =
        [\<lparr>path = ''src/components'', isDirectory = True, originalLine = 1,
          issues = [\<lparr>issueType = Conflict, issuePath = ''src/components'',
                     message = ''Resolved: treating as directory'', line = Some 1\<rparr>]\<rparr>],
      allIssues =
        [\<lparr>issueType = Duplicate, issuePath = ''src/components'',
          message = ''Duplicate path (also on lines: 1)'', line = Some 2\<rparr>,
         \<lparr>issueType = Conflict, issuePath = ''src/components'',
          message = ''Conflict: defined as both file and directory'', line = Some 2\<rparr>],
      folderCount = 1, fileCount = 0\<rparr>"
  unfolding conflictExample_def by code_simp

text \<open>
  C4, as stated, fails: the \<open>Resolved\<close> issue is pushed onto the issues of the existing
  entry only (line 176), after the spread at line 197 has copied that entry's issues to
  the top-level list.
\<close>

theorem resolved_issue_missing_from_top_level:
  "entries (processPaths conflictExample) =
     [\<lparr>path = ''src/components'', isDirectory = True, originalLine = 1,
       issues = [resolvedIssue ''src/components'' 1]\<rparr>] \<and>
   resolvedIssue ''src/components'' 1 \<notin> set (allIssues (processPaths conflictExample))"
  by (simp add: conflictExample_run resolvedIssue_def)

text \<open>
  C4, amended. Every issue of every final entry is in the top-level list, except the
  entry's own \<open>Resolved: treating as directory\<close> issue; no issue with that message is
  ever in the top-level list.
\<close>

theorem entry_issues_in_top_level:
  "(\<forall>e\<in>set (entries (processPaths input)). \<forall>i\<in>set (issues e).
      i \<in> set (allIssues (processPaths input)) \<or>
      i = resolvedIssue (path e) (originalLine e)) \<and>
   (\<forall>i\<in>set (allIssues (processPaths input)).
      message i \<noteq> ''Resolved: treating as directory'')"
  using issuesAccounted_foldl [OF consistent_initialState issuesAccounted_initialState]
  by (simp add: processPaths_def Let_def finish_def issuesAccounted_def)

lemma sanitizedConflict_run:
  "processPaths sanitizedConflict =
     \<lparr>entries =
        [\<lparr>path = ''a<b'', isDirectory = True, originalLine = 1,
          issues =
            [\<lparr>issueType = Sanitized, issuePath = ''a<b'',
              message = ''Sanitized: \"a<b\" '' @ [CHR 0xE2, CHR 0x86, CHR 0x92] @ '' \"a-b\"'',
              line = Some 1\<rparr>,
             \<lparr>issueType = Conflict, issuePath = ''a<b'',
              message = ''Resolved: treating as directory'', line = Some 1\<rparr>]\<rparr>],
      allIssues =
        [\<lparr>issueType = Sanitized, issuePath = ''a<b'',
          message = ''Sanitized: \"a<b\" '' @ [CHR 0xE2, CHR 0x86, CHR 0x92] @ '' \"a-b\"'',
          line = Some 1\<rparr>,
         \<lparr>issueType = Sanitized, issuePath = ''a<b'',
          message = ''Sanitized: \"a<b\" '' @ [CHR 0xE2, CHR 0x86, CHR 0x92] @ '' \"a-b\"'',
          line = Some 2\<rparr>,
         \<lparr>issueType = Duplicate, issuePath = ''a<b'',
          message = ''Duplicate path (also on lines: 1)'', line = Some 2\<rparr>,
         \<lparr>issueType = Conflict, issuePath = ''a<b'',
          message = ''Conflict: defined as both file and directory'', line = Some 2\<rparr>],
      folderCount = 1, fileCount = 0\<rparr>"
  unfolding sanitizedConflict_def by code_simp

theorem entry_issues_in_top_level_witness:
  "hd (entries (processPaths sanitizedConflict)) \<in> set (entries (processPaths sanitizedConflict)) \<and>
   hd (issues (hd (entries (processPaths sanitizedConflict))))
     \<in> set (issues (hd (entries (processPaths sanitizedConflict)))) \<and>
   hd (issues (hd (entries (processPaths sanitizedConflict))))
     \<in> set (allIssues (processPaths sanitizedConflict)) \<and>
   message (hd (issues (hd (entries (processPaths sanitizedConflict))))) =
     ''Sanitized: \"a<b\" '' @ [CHR 0xE2, CHR 0x86, CHR 0x92] @ '' \"a-b\"''"
  using entry_issues_in_top_level [of sanitizedConflict]
  by (simp add: sanitizedConflict_run resolvedIssue_def)

subsection \<open>Examples, and the result for every input\<close>

lemma sixLines_run:
  "processPaths sixLines =
     \<lparr>entries =
        [\<lparr>path = ''src/components'', isDirectory = True, originalLine = 1, issues = []\<rparr>,
         \<lparr>path = ''src/components/Button.tsx'', isDirectory = False, originalLine = 2,
          issues = []\<rparr>,
         \<lparr>path = ''src/utils/helpers.ts'', isDirectory = False, originalLine = 4,
          issues = []\<rparr>,
         \<lparr>path = ''src/utils/invalid<>name.ts'', isDirectory = False, originalLine = 5,
          issues =
            [\<lparr>issueType = Sanitized, issuePath = ''invalid<>name.ts'',
              message = ''Sanitized: \"invalid<>name.ts\" '' @ [CHR 0xE2, CHR 0x86, CHR 0x92]
                @ '' \"invalid->name.ts\"'',
              line = Some 5\<rparr>]\<rparr>,
         \<lparr>path = ''src/README.md'', isDirectory = False, originalLine = 6, issues = []\<rparr>],
      allIssues =
        [\<lparr>issueType = Duplicate, issuePath = ''src/components/Button.tsx'',
          message = ''Duplicate path (also on lines: 2)'', line = Some 3\<rparr>,
         \<lparr>issueType = Sanitized, issuePath = ''invalid<>name.ts'',
          message = ''Sanitized: \"invalid<>name.ts\" '' @ [CHR 0xE2, CHR 0x86, CHR 0x92]
            @ '' \"invalid->name.ts\"'',
          line = Some 5\<rparr>],
      folderCount = 1, fileCount = 4\<rparr>"
  unfolding sixLines_def by code_simp

text \<open>
  C2, as stated, fails: only the first of the six lines declares a directory, and
  \<open>folderCount\<close> counts directory entries, so it is 1 and not 2.
\<close>

theorem six_lines_folderCount_not_2:
  "folderCount (processPaths sixLines) \<noteq> 2"
  by (simp add: sixLines_run)

text \<open>
  C2, amended. The six-line input yields exactly two issues, a \<open>duplicate\<close> and a
  \<open>sanitized\<close> one, five entries, \<open>folderCount = 1\<close> and \<open>fileCount = 4\<close>: the repeated
  file is counted once.
\<close>

theorem six_lines_counts:
  "folderCount (processPaths sixLines) = 1 \<and>
   fileCount (processPaths sixLines) = 4 \<and>
   map issueType (allIssues (processPaths sixLines)) = [Duplicate, Sanitized] \<and>
   map (\<lambda>e. (path e, isDirectory e)) (entries (processPaths sixLines)) =
     [(''src/components'', True), (''src/components/Button.tsx'', False),
      (''src/utils/helpers.ts'', False), (''src/utils/invalid<>name.ts'', False),
      (''src/README.md'', False)]"
  by (simp add: sixLines_run)










section \<open>Properties of the tree builder\<close>

subsection \<open>Reading and writing at a position\<close>

lemma nodeAt_append:
  "nodeAt t (r @ s) = (case nodeAt t r of None \<Rightarrow> None | Some n \<Rightarrow> nodeAt n s)"
  by (induction r arbitrary: t) auto

lemma shallow_appendIssues: "shallow (appendIssues pushed n) = appendIssues pushed (shallow n)"
  by (cases n) (simp add: shallow_def appendIssues_def)

lemma labelAt_Nil [simp]: "labelAt t [] = Some (shallow t)"
  by (simp add: labelAt_def)

lemma labelAt_Cons:
  "labelAt t (i # r) = (if i < length (children t) then labelAt (children t ! i) r else None)"
  by (simp add: labelAt_def)

lemma labelAt_appendIssues:
  "labelAt (updateAt (appendIssues pushed) r0 t) r =
     (if r = r0 then map_option (appendIssues pushed) (labelAt t r) else labelAt t r)"
proof (induction r0 arbitrary: t r)
  case Nil
  show ?case
  proof (cases r)
    case Nil
    then show ?thesis by (simp add: shallow_appendIssues)
  next
    case (Cons i s)
    then show ?thesis by (cases t) (simp add: labelAt_Cons appendIssues_def)
  qed
next
  case (Cons j r0)
  obtain n p d cs iss where t: "t = TreeNode n p d cs iss" by (cases t)
  show ?case
  proof (cases r)
    case Nil
    then show ?thesis by (simp add: t shallow_def)
  next
    case (Cons i s)
    show ?thesis
    proof (cases "i = j")
      case True
      then show ?thesis using \<open>r = i # s\<close>
        by (simp add: t labelAt_Cons Cons.IH)
    next
      case False
      then show ?thesis using \<open>r = i # s\<close> by (simp add: t labelAt_Cons)
    qed
  qed
qed

lemma labelAt_appendChild:
  assumes "nodeAt t r0 = Some pn" "children c = []"
  shows "labelAt (updateAt (appendChild c) r0 t) r =
           (if r = r0 @ [length (children pn)] then Some (shallow c) else labelAt t r)"
  using assms(1)
proof (induction r0 arbitrary: t r)
  case Nil
  then have pn: "pn = t" by simp
  obtain n p d cs iss where t: "t = TreeNode n p d cs iss" by (cases t)
  show ?case
  proof (cases r)
    case Nil
    then show ?thesis by (simp add: t pn appendChild_def shallow_def)
  next
    case (Cons i s)
    consider "i < length cs" | "i = length cs" | "i > length cs" by linarith
    then show ?thesis
    proof cases
      case 1
      then show ?thesis using Cons by (simp add: t pn appendChild_def labelAt_Cons nth_append)
    next
      case 2
      then show ?thesis using Cons assms(2)
        by (cases s) (simp_all add: t pn appendChild_def labelAt_Cons nth_append)
    next
      case 3
      then show ?thesis using Cons by (simp add: t pn appendChild_def labelAt_Cons)
    qed
  qed
next
  case (Cons j r0)
  obtain n p d cs iss where t: "t = TreeNode n p d cs iss" by (cases t)
  from Cons.prems have j: "j < length cs" and sub: "nodeAt (cs ! j) r0 = Some pn"
    by (auto simp: t split: if_splits)
  show ?case
  proof (cases r)
    case Nil
    then show ?thesis by (simp add: t shallow_def)
  next
    case (Cons i s)
    show ?thesis
    proof (cases "i = j")
      case True
      then show ?thesis using \<open>r = i # s\<close> j
        by (simp add: t labelAt_Cons Cons.IH [OF sub])
    next
      case False
      then show ?thesis using \<open>r = i # s\<close> j by (simp add: t labelAt_Cons)
    qed
  qed
qed

subsection \<open>The two writes of the loop keep the invariant\<close>

lemma appendIssues_sel [simp]:
  "nodePath (appendIssues pushed n) = nodePath n"
  "name (appendIssues pushed n) = name n"
  "nodeIssues (appendIssues pushed n) = nodeIssues n @ pushed"
  by (cases n; simp add: appendIssues_def)+

lemma shallow_sel [simp]:
  "nodePath (shallow n) = nodePath n"
  "name (shallow n) = name n"
  "nodeIssues (shallow n) = nodeIssues n"
  "nodeIsDirectory (shallow n) = nodeIsDirectory n"
  by (simp_all add: shallow_def)

lemma registeredD:
  assumes "registered st" "nodeMap st k = Some r"
  obtains pn where "nodeAt (root st) r = Some pn" "nodePath pn = k"
  using assms by (auto simp: registered_def labelAt_def)

lemma fresh_position:
  assumes "nodeAt t r = Some pn"
  shows "labelAt t ((r @ [length (children pn)]) @ s) = None"
  using assms by (simp add: labelAt_def nodeAt_append)

lemma addNode:
  fixes d :: bool and iss :: "PathIssue list"
  assumes inv: "buildInv st"
    and parent: "nodeMap st cur = Some parent"
    and new: "nodeMap st (childPath cur part) = None"
    and part: "part \<noteq> []"
  defines "st' \<equiv>
    \<lparr>root = updateAt (appendChild (TreeNode part (childPath cur part) d [] iss)) parent (root st),
     nodeMap = (nodeMap st)(childPath cur part \<mapsto> parent @ [childCount (root st) parent])\<rparr>"
  shows "buildInv st'"
    and "issuesOf st' k = (if k = childPath cur part then iss else issuesOf st k)"
proof -
  let ?k = "childPath cur part"
  let ?c = "TreeNode part ?k d [] iss"
  from inv have reg: "registered st" and lnk: "linked (root st)" and top: "nodeMap st [] = Some []"
    by (simp_all add: buildInv_def)
  from registeredD [OF reg parent] obtain pn
    where pn: "nodeAt (root st) parent = Some pn" "nodePath pn = cur" .
  let ?rn = "parent @ [length (children pn)]"
  have cc: "childCount (root st) parent = length (children pn)"
    using pn by (simp add: childCount_def)
  have lab: "labelAt (root st') r = (if r = ?rn then Some (shallow ?c) else labelAt (root st) r)" for r
    unfolding st'_def using labelAt_appendChild [OF pn(1), of ?c r] by simp
  have fresh: "labelAt (root st) (?rn @ s) = None" for s
    using fresh_position [OF pn(1)] by simp
  have fresh0: "labelAt (root st) ?rn = None"
    using fresh [of "[]"] by simp
  have map': "nodeMap st' k' = (if k' = ?k then Some ?rn else nodeMap st k')" for k'
    by (simp add: st'_def cc)
  have reg_eq: "map_option nodePath (labelAt (root st) r) = Some k' \<longleftrightarrow> nodeMap st k' = Some r"
    for k' r using reg by (simp add: registered_def)
  have reg': "registered st'"
    unfolding registered_def
  proof (intro allI)
    fix k' r
    show "nodeMap st' k' = Some r \<longleftrightarrow> map_option nodePath (labelAt (root st') r) = Some k'"
    proof (cases "r = ?rn")
      case True
      have "nodeMap st k' \<noteq> Some ?rn"
        using reg_eq [of ?rn k'] fresh0 by auto
      then show ?thesis using True by (auto simp: map' lab)
    next
      case False
      have "nodeMap st' k' = Some r \<longleftrightarrow> k' \<noteq> ?k \<and> nodeMap st k' = Some r"
        using False by (auto simp: map')
      also have "\<dots> \<longleftrightarrow> nodeMap st k' = Some r"
        using new by auto
      also have "\<dots> \<longleftrightarrow> map_option nodePath (labelAt (root st) r) = Some k'"
        by (simp only: reg_eq)
      also have "labelAt (root st) r = labelAt (root st') r"
        using False by (simp only: lab if_False)
      finally show ?thesis .
    qed
  qed
  have lnk': "linked (root st')"
    unfolding linked_def
  proof (intro allI impI)
    fix r i n c
    assume n: "labelAt (root st') r = Some n" and c: "labelAt (root st') (r @ [i]) = Some c"
    show "nodePath c = childPath (nodePath n) (name c) \<and> name c \<noteq> []"
    proof (cases "r @ [i] = ?rn")
      case True
      then have r: "r = parent" by simp
      have "labelAt (root st) parent = Some (shallow pn)"
        using pn(1) by (simp add: labelAt_def)
      with n r have "n = shallow pn" by (simp add: lab)
      with pn(2) have "nodePath n = cur" by simp
      moreover from c True have "c = shallow ?c" by (simp add: lab)
      ultimately show ?thesis using part by simp
    next
      case False
      with c have c0: "labelAt (root st) (r @ [i]) = Some c"
        by (auto simp: lab split: if_splits)
      have "r \<noteq> ?rn" using fresh [of "[i]"] c0 by auto
      with n have "labelAt (root st) r = Some n" by (simp add: lab)
      with c0 lnk show ?thesis unfolding linked_def by blast
    qed
  qed
  have top': "nodeMap st' [] = Some []"
    using top new by (auto simp: map')
  from reg' lnk' top' show "buildInv st'" by (simp add: buildInv_def)
  show "issuesOf st' k = (if k = ?k then iss else issuesOf st k)"
  proof (cases "k = ?k")
    case True
    then show ?thesis by (simp add: issuesOf_def map' lab)
  next
    case False
    show ?thesis
    proof (cases "nodeMap st k")
      case None
      then show ?thesis using False by (simp add: issuesOf_def map')
    next
      case (Some r)
      then have "r \<noteq> ?rn" using reg fresh0 by (auto simp: registered_def)
      then show ?thesis using False Some by (simp add: issuesOf_def map' lab)
    qed
  qed
qed

lemma pushIssues:
  fixes pushed :: "PathIssue list"
  assumes inv: "buildInv st" and at: "nodeMap st k0 = Some r0"
  defines "st' \<equiv> st\<lparr>root := updateAt (appendIssues pushed) r0 (root st)\<rparr>"
  shows "buildInv st'"
    and "issuesOf st' k = (if k = k0 then issuesOf st k @ pushed else issuesOf st k)"
proof -
  from inv have reg: "registered st" and lnk: "linked (root st)" and top: "nodeMap st [] = Some []"
    by (simp_all add: buildInv_def)
  have lab: "labelAt (root st') r =
      (if r = r0 then map_option (appendIssues pushed) (labelAt (root st) r)
       else labelAt (root st) r)" for r
    by (simp add: st'_def labelAt_appendIssues)
  have pathAt: "map_option nodePath (labelAt (root st') r) = map_option nodePath (labelAt (root st) r)"
    for r by (cases "labelAt (root st) r") (auto simp: lab)
  have nameAt: "map_option name (labelAt (root st') r) = map_option name (labelAt (root st) r)"
    for r by (cases "labelAt (root st) r") (auto simp: lab)
  have reg': "registered st'"
    using reg by (simp add: registered_def pathAt) (simp add: st'_def)
  have lnk': "linked (root st')"
    unfolding linked_def
  proof (intro allI impI)
    fix r i n c
    assume n: "labelAt (root st') r = Some n" and c: "labelAt (root st') (r @ [i]) = Some c"
    from n pathAt [of r] nameAt [of r] obtain n0
      where n0: "labelAt (root st) r = Some n0" "nodePath n0 = nodePath n"
      by (cases "labelAt (root st) r") auto
    from c pathAt [of "r @ [i]"] nameAt [of "r @ [i]"] obtain c0
      where c0: "labelAt (root st) (r @ [i]) = Some c0" "nodePath c0 = nodePath c" "name c0 = name c"
      by (cases "labelAt (root st) (r @ [i])") auto
    from lnk n0(1) c0(1) have "nodePath c0 = childPath (nodePath n0) (name c0) \<and> name c0 \<noteq> []"
      unfolding linked_def by blast
    then show "nodePath c = childPath (nodePath n) (name c) \<and> name c \<noteq> []"
      using n0 c0 by simp
  qed
  from reg' lnk' top show "buildInv st'" by (simp add: buildInv_def st'_def)
  have same: "nodeMap st k = Some r0 \<longleftrightarrow> k = k0"
    using reg at by (auto simp: registered_def)
  show "issuesOf st' k = (if k = k0 then issuesOf st k @ pushed else issuesOf st k)"
  proof (cases "nodeMap st k")
    case None
    then show ?thesis using same by (auto simp: issuesOf_def st'_def)
  next
    case (Some r)
    have m: "nodeMap st' k = Some r" using Some by (simp add: st'_def)
    from registeredD [OF reg Some] obtain n where "nodeAt (root st) r = Some n" .
    then have "labelAt (root st) r = Some (shallow n)" by (simp add: labelAt_def)
    then show ?thesis using same Some by (auto simp: issuesOf_def m lab)
  qed
qed

subsection \<open>The inner loop and the outer loop\<close>

lemma walk_Cons:
  "walk e (part # rest) cur parent st =
     (case nodeMap st (childPath cur part) of
        None \<Rightarrow>
          if rest \<noteq> [] \<or> isDirectory e then
            walk e rest (childPath cur part) (parent @ [childCount (root st) parent])
              \<lparr>root = updateAt (appendChild (TreeNode part (childPath cur part) True [] []))
                        parent (root st),
               nodeMap = (nodeMap st)(childPath cur part \<mapsto>
                 parent @ [childCount (root st) parent])\<rparr>
          else
            \<lparr>root = updateAt (appendChild (TreeNode part (childPath cur part) False []
                        (issues e))) parent (root st),
             nodeMap = (nodeMap st)(childPath cur part \<mapsto>
               parent @ [childCount (root st) parent])\<rparr>
      | Some r \<Rightarrow>
          walk e rest (childPath cur part) r
            (if rest = [] \<and> \<not> isDirectory e
             then st\<lparr>root := updateAt (appendIssues (issues e)) r (root st)\<rparr> else st))"
proof -
  have k: "(if cur \<noteq> [] then cur @ ''/'' @ part else part) = childPath cur part"
    by (simp add: childPath_def)
  show ?thesis
    by (simp only: walk.simps(2) Let_def k)
qed

lemma issuesOf_unregistered: "nodeMap st k = None \<Longrightarrow> issuesOf st k = []"
  by (simp add: issuesOf_def)

lemma walk_correct:
  assumes "buildInv st" "nodeMap st cur = Some parent" "\<forall>p\<in>set parts. p \<noteq> []"
  shows "buildInv (walk e parts cur parent st) \<and>
         (\<forall>k. issuesOf (walk e parts cur parent st) k =
            issuesOf st k @
              (if \<not> isDirectory e \<and> parts \<noteq> [] \<and> k = foldl childPath cur parts
               then issues e else []))"
  using assms
proof (induction parts arbitrary: cur parent st)
  case Nil
  then show ?case by simp
next
  case (Cons part rest)
  let ?k = "childPath cur part"
  from Cons.prems have part: "part \<noteq> []" and rest: "\<forall>p\<in>set rest. p \<noteq> []"
    by simp_all
  note inv = Cons.prems(1) and parent = Cons.prems(2)
  show ?case
  proof (cases "nodeMap st ?k")
    case None
    let ?r = "parent @ [childCount (root st) parent]"
    show ?thesis
    proof (cases "rest \<noteq> [] \<or> isDirectory e")
      case True
      let ?st1 = "\<lparr>root = updateAt (appendChild (TreeNode part ?k True [] [])) parent (root st),
                    nodeMap = (nodeMap st)(?k \<mapsto> ?r)\<rparr>"
      have inv1: "buildInv ?st1"
        and iss1: "issuesOf ?st1 k = (if k = ?k then [] else issuesOf st k)" for k
        using addNode [OF inv parent None part, of True "[]"] by simp_all
      have iss1': "issuesOf ?st1 k = issuesOf st k" for k
        using issuesOf_unregistered [OF None] by (simp add: iss1)
      have at1: "nodeMap ?st1 ?k = Some ?r" by simp
      from Cons.IH [OF inv1 at1 rest]
      have "buildInv (walk e rest ?k ?r ?st1)"
        and "issuesOf (walk e rest ?k ?r ?st1) k =
               issuesOf st k @
                 (if \<not> isDirectory e \<and> rest \<noteq> [] \<and> k = foldl childPath ?k rest
                  then issues e else [])" for k
        by (simp_all add: iss1')
      then show ?thesis
        using True None by (auto simp: walk_Cons)
    next
      case False
      let ?st1 = "\<lparr>root = updateAt (appendChild (TreeNode part ?k False [] (issues e)))
                            parent (root st),
                    nodeMap = (nodeMap st)(?k \<mapsto> ?r)\<rparr>"
      have inv1: "buildInv ?st1"
        and iss1: "issuesOf ?st1 k = (if k = ?k then issues e else issuesOf st k)" for k
        using addNode [OF inv parent None part, of False "issues e"] by simp_all
      show ?thesis
        using False None inv1 issuesOf_unregistered [OF None]
        by (auto simp: walk_Cons iss1)
    qed
  next
    case (Some r)
    show ?thesis
    proof (cases "rest = [] \<and> \<not> isDirectory e")
      case True
      let ?st1 = "st\<lparr>root := updateAt (appendIssues (issues e)) r (root st)\<rparr>"
      have inv1: "buildInv ?st1"
        and iss1: "issuesOf ?st1 k = (if k = ?k then issuesOf st k @ issues e else issuesOf st k)"
        for k
        using pushIssues [OF inv Some, of "issues e"] by simp_all
      show ?thesis
        using True Some inv1 by (auto simp: walk_Cons iss1)
    next
      case False
      from Cons.IH [OF inv Some rest]
      show ?thesis
        using False Some by (auto simp: walk_Cons)
    qed
  qed
qed

lemma foldl_childPath_from:
  "cur \<noteq> [] \<Longrightarrow> foldl childPath cur ps = join ''/'' (cur # ps)"
proof (induction ps arbitrary: cur)
  case Nil
  then show ?case by simp
next
  case (Cons p ps)
  have "foldl childPath cur (p # ps) = foldl childPath (cur @ ''/'' @ p) ps"
    using Cons.prems by (simp add: childPath_def)
  also have "\<dots> = join ''/'' ((cur @ ''/'' @ p) # ps)"
    by (rule Cons.IH) simp
  also have "\<dots> = join ''/'' (cur # p # ps)"
    by (cases ps) simp_all
  finally show ?case .
qed

lemma foldl_childPath:
  assumes "\<forall>p\<in>set ps. p \<noteq> []" "ps \<noteq> []"
  shows "foldl childPath [] ps = join ''/'' ps"
proof -
  from assms obtain p qs where ps: "ps = p # qs" "p \<noteq> []" by (cases ps) auto
  then show ?thesis by (simp add: childPath_def foldl_childPath_from)
qed

lemma entryParts_nonempty: "\<forall>p\<in>set (entryParts e). p \<noteq> []"
  by (simp add: entryParts_def)

lemma buildInv_initialBuild: "buildInv initialBuild"
proof -
  have lab: "labelAt (TreeNode [] [] True [] []) r = (if r = [] then Some (TreeNode [] [] True [] []) else None)"
    for r by (cases r) (simp_all add: labelAt_Cons shallow_def)
  show ?thesis
    by (auto simp: buildInv_def registered_def linked_def initialBuild_def lab)
qed


lemma insertEntry_correct:
  assumes "buildInv st"
  shows "buildInv (insertEntry st e)"
    and "issuesOf (insertEntry st e) k = issuesOf st k @ fileIssuesAt [e] k"
proof -
  from assms have top: "nodeMap st [] = Some []" by (simp add: buildInv_def)
  note w = walk_correct [OF assms top entryParts_nonempty, of e e]
  from w show "buildInv (insertEntry st e)" by (simp add: insertEntry_def)
  have "k = foldl childPath [] (entryParts e) \<longleftrightarrow> join ''/'' (entryParts e) = k"
    if "entryParts e \<noteq> []"
    using foldl_childPath [OF entryParts_nonempty that] by auto
  then show "issuesOf (insertEntry st e) k = issuesOf st k @ fileIssuesAt [e] k"
    using w by (auto simp: insertEntry_def fileIssuesAt_def)
qed

lemma fileIssuesAt_append: "fileIssuesAt (es @ fs) k = fileIssuesAt es k @ fileIssuesAt fs k"
  by (simp add: fileIssuesAt_def)

lemma foldl_insertEntry:
  assumes "buildInv st"
  shows "buildInv (foldl insertEntry st es)"
    and "issuesOf (foldl insertEntry st es) k = issuesOf st k @ fileIssuesAt es k"
  using assms
proof (induction es arbitrary: st)
  case Nil
  { case 1 then show ?case by simp }
  { case 2 then show ?case by (simp add: fileIssuesAt_def) }
next
  case (Cons e es)
  { case 1 then show ?case by (simp add: Cons.IH(1) insertEntry_correct(1)) }
  { case 2
    have "fileIssuesAt (e # es) k = fileIssuesAt [e] k @ fileIssuesAt es k"
      using fileIssuesAt_append [of "[e]" es k] by simp
    with 2 show ?case
      by (simp add: Cons.IH(2) insertEntry_correct) }
qed

subsection \<open>Sorting, and properties of every node\<close>

lemma set_insertSorted [simp]: "set (insertSorted cmp x ys) = insert x (set ys)"
  by (induction ys) auto

lemma arraySort_Cons: "arraySort cmp (x # xs) = insertSorted cmp x (arraySort cmp xs)"
  by (simp add: arraySort_def)

lemma arraySort_Nil [simp]: "arraySort cmp [] = []"
  by (simp add: arraySort_def)

lemma set_arraySort [simp]: "set (arraySort cmp xs) = set xs"
  by (induction xs) (simp_all add: arraySort_Cons)

lemma distinct_map_insertSorted:
  "distinct (map f (insertSorted cmp x ys)) \<longleftrightarrow> f x \<notin> f ` set ys \<and> distinct (map f ys)"
  by (induction ys) auto

lemma distinct_map_arraySort: "distinct (map f (arraySort cmp xs)) \<longleftrightarrow> distinct (map f xs)"
  by (induction xs) (simp_all add: arraySort_Cons distinct_map_insertSorted)

lemma sorted_insertSorted:
  assumes total: "\<And>a b. cmp a b \<le> 0 \<or> cmp b a \<le> 0"
    and trans: "\<And>a b c. cmp a b \<le> 0 \<Longrightarrow> cmp b c \<le> 0 \<Longrightarrow> cmp a c \<le> 0"
    and sorted: "sorted_wrt (\<lambda>a b. cmp a b \<le> 0) ys"
  shows "sorted_wrt (\<lambda>a b. cmp a b \<le> 0) (insertSorted cmp x ys)"
  using sorted
proof (induction ys)
  case Nil
  then show ?case by simp
next
  case (Cons y ys)
  show ?case
  proof (cases "cmp x y \<le> 0")
    case True
    then have "\<forall>z\<in>set ys. cmp x z \<le> 0"
      using Cons.prems trans by auto
    then show ?thesis using True Cons.prems by simp
  next
    case False
    then have "cmp y x \<le> 0" using total [of x y] by simp
    then show ?thesis using False Cons by simp
  qed
qed

lemma sorted_arraySort:
  assumes "\<And>a b. cmp a b \<le> 0 \<or> cmp b a \<le> 0"
    and "\<And>a b c. cmp a b \<le> 0 \<Longrightarrow> cmp b c \<le> 0 \<Longrightarrow> cmp a c \<le> 0"
  shows "sorted_wrt (\<lambda>a b. cmp a b \<le> 0) (arraySort cmp xs)"
  by (induction xs) (simp_all add: arraySort_Cons sorted_insertSorted [OF assms])

lemma compareNodes_le: "compareNodes lc a b \<le> 0 \<longleftrightarrow> goesBefore lc a b"
  by (auto simp: compareNodes_def goesBefore_def)

lemma sorted_children:
  assumes "consistentCompare lc"
  shows "sorted_wrt (goesBefore lc) (arraySort (compareNodes lc) cs)"
proof -
  from assms have total: "lc a b \<le> 0 \<or> lc b a \<le> 0"
    and trans: "lc a b \<le> 0 \<Longrightarrow> lc b c \<le> 0 \<Longrightarrow> lc a c \<le> 0" for a b c
    unfolding consistentCompare_def by blast+
  have t: "compareNodes lc a b \<le> 0 \<or> compareNodes lc b a \<le> 0" for a b
    using total [of "name a" "name b"] by (auto simp: compareNodes_le goesBefore_def)
  have tr: "compareNodes lc a c \<le> 0"
    if "compareNodes lc a b \<le> 0" "compareNodes lc b c \<le> 0" for a b c
    using that trans [of "name a" "name b" "name c"]
    by (auto simp: compareNodes_le goesBefore_def)
  have "sorted_wrt (\<lambda>a b. compareNodes lc a b \<le> 0) (arraySort (compareNodes lc) cs)"
    using t tr by (rule sorted_arraySort)
  then show ?thesis by (simp add: compareNodes_le)
qed

lemma sortTree_sel [simp]:
  "name (sortTree lc n) = name n"
  "nodePath (sortTree lc n) = nodePath n"
  "nodeIsDirectory (sortTree lc n) = nodeIsDirectory n"
  "nodeIssues (sortTree lc n) = nodeIssues n"
  "children (sortTree lc n) = map (sortTree lc) (arraySort (compareNodes lc) (children n))"
  by (cases n; simp)+

lemma goesBefore_sortTree [simp]:
  "goesBefore lc (sortTree lc a) (sortTree lc b) = goesBefore lc a b"
  by (simp add: goesBefore_def)

lemma everyNode_sortTree:
  assumes "everyNode P t" "\<And>n. P n \<Longrightarrow> Q (sortTree lc n)"
  shows "everyNode Q (sortTree lc t)"
  using assms(1)
proof (induction t)
  case (TreeNode n p d cs iss)
  from TreeNode.prems have here: "P (TreeNode n p d cs iss)"
    and below: "\<forall>c\<in>set cs. everyNode P c"
    by (simp_all add: list_all_iff)
  have "Q (sortTree lc (TreeNode n p d cs iss))"
    using here by (rule assms(2))
  moreover have "\<forall>c\<in>set cs. everyNode Q (sortTree lc c)"
    using TreeNode.IH below by blast
  ultimately show ?case
    by (simp add: list_all_iff)
qed

lemma everyNode_nodeAt:
  assumes "\<And>r n. nodeAt t r = Some n \<Longrightarrow> P n"
  shows "everyNode P t"
  using assms
proof (induction t)
  case (TreeNode n p d cs iss)
  have "P (TreeNode n p d cs iss)"
    using TreeNode.prems [of "[]"] by simp
  moreover have "everyNode P c" if c: "c \<in> set cs" for c
  proof (rule TreeNode.IH [OF c])
    fix r m assume m: "nodeAt c r = Some m"
    from c obtain i where i: "i < length cs" "cs ! i = c"
      by (auto simp: in_set_conv_nth)
    then have "nodeAt (TreeNode n p d cs iss) (i # r) = Some m"
      using m by simp
    then show "P m" by (rule TreeNode.prems)
  qed
  ultimately show ?case by (simp add: list_all_iff)
qed

lemma built_root_path:
  assumes "buildInv st"
  shows "nodePath (root st) = []"
proof -
  from assms have "registered st" "nodeMap st [] = Some []" by (simp_all add: buildInv_def)
  then have "map_option nodePath (labelAt (root st) []) = Some []"
    unfolding registered_def by blast
  then show ?thesis by simp
qed


lemma childPath_nonempty: "nm \<noteq> [] \<Longrightarrow> childPath p nm \<noteq> []"
  by (simp add: childPath_def)

lemma built_node_invariant:
  assumes inv: "buildInv st" and n: "nodeAt (root st) r = Some n"
  shows "nodeInvariant n"
proof -
  from inv have reg: "registered st" and lnk: "linked (root st)"
    by (simp_all add: buildInv_def)
  have lab: "labelAt (root st) r = Some (shallow n)"
    using n by (simp add: labelAt_def)
  have child: "labelAt (root st) (r @ [i]) = Some (shallow (children n ! i))"
    if "i < length (children n)" for i
    using that n by (simp add: labelAt_def nodeAt_append)
  have link: "nodePath (children n ! i) = childPath (nodePath n) (name (children n ! i)) \<and>
              name (children n ! i) \<noteq> []"
    if "i < length (children n)" for i
    using lnk lab child [OF that] unfolding linked_def by fastforce
  have "name (children n ! i) \<noteq> name (children n ! j)"
    if i: "i < length (children n)" and j: "j < length (children n)" and ij: "i \<noteq> j" for i j
  proof
    assume "name (children n ! i) = name (children n ! j)"
    with link [OF i] link [OF j]
    have same: "nodePath (children n ! i) = nodePath (children n ! j)" by simp
    have "nodeMap st (nodePath (children n ! i)) = Some (r @ [i])"
      using reg child [OF i] unfolding registered_def by simp
    moreover have "nodeMap st (nodePath (children n ! j)) = Some (r @ [j])"
      using reg child [OF j] unfolding registered_def by simp
    ultimately show False using same ij by simp
  qed
  then have "distinct (map name (children n))"
    by (simp add: distinct_conv_nth)
  moreover have "list_all (\<lambda>c. nodePath c = childPath (nodePath n) (name c) \<and> nodePath c \<noteq> [])
                   (children n)"
    unfolding list_all_length
  proof (intro allI impI)
    fix i assume i: "i < length (children n)"
    from link [OF i] childPath_nonempty [of "name (children n ! i)" "nodePath n"]
    show "nodePath (children n ! i) = childPath (nodePath n) (name (children n ! i)) \<and>
          nodePath (children n ! i) \<noteq> []"
      by simp
  qed
  ultimately show ?thesis by (simp add: nodeInvariant_def)
qed

lemma nodeInvariant_sortTree:
  assumes "nodeInvariant n"
  shows "nodeInvariant (sortTree lc n)"
  using assms
  by (auto simp: nodeInvariant_def list_all_iff distinct_map_arraySort comp_def)

lemma built_state: "buildInv (foldl insertEntry initialBuild es)"
  by (rule foldl_insertEntry(1) [OF buildInv_initialBuild])

text \<open>
  C7. When the locale comparison is consistent (total and transitive, as a comparator
  passed to \<open>sort\<close> has to be), the children of every node of the tree returned by
  \<open>buildTree\<close> are sorted: every directory comes before every file, and two children
  of the same kind are in the order of the comparison of their names. This holds for any
  list of entries, in any order.
\<close>

theorem children_sorted:
  assumes "consistentCompare localeCompare"
  shows "everyNode (childrenOrdered localeCompare) (buildTree localeCompare es)"
proof -
  let ?t = "root (foldl insertEntry initialBuild (sortedEntries localeCompare es))"
  have "everyNode (\<lambda>n. True) ?t"
    by (rule everyNode_nodeAt) simp
  moreover have "childrenOrdered localeCompare (sortTree localeCompare n)" for n
    using sorted_children [OF assms, of "children n"]
    by (simp add: childrenOrdered_def sorted_wrt_map)
  ultimately show ?thesis
    unfolding buildTree_def by (rule everyNode_sortTree)
qed


text \<open>
  C9. For every list of entries the tree returned by \<open>buildTree\<close> has a root whose
  path is empty, and at every node the children have pairwise different names, and each
  child's path is non-empty and is the node's path joined with the child's name by \<open>/\<close>
  (the name alone below the root). Hence the root is the only node with an empty path.
\<close>

theorem tree_invariant:
  "nodePath (buildTree localeCompare es) = [] \<and>
   everyNode nodeInvariant (buildTree localeCompare es)"
proof -
  let ?st = "foldl insertEntry initialBuild (sortedEntries localeCompare es)"
  have "everyNode nodeInvariant (root ?st)"
    by (rule everyNode_nodeAt) (rule built_node_invariant [OF built_state])
  then have "everyNode nodeInvariant (sortTree localeCompare (root ?st))"
    by (rule everyNode_sortTree) (rule nodeInvariant_sortTree)
  moreover have "nodePath (sortTree localeCompare (root ?st)) = []"
    using built_root_path [OF built_state] by simp
  ultimately show ?thesis by (simp add: buildTree_def)
qed

subsection \<open>Examples\<close>

lemma everyNode_root: "everyNode P t \<Longrightarrow> P t"
  by (cases t) simp


lemma codeUnitCompare_le: "codeUnitCompare a b \<le> 0 \<longleftrightarrow> a \<le> b"
  by (auto simp: codeUnitCompare_def)

lemma consistent_codeUnitCompare: "consistentCompare codeUnitCompare"
  unfolding consistentCompare_def codeUnitCompare_le
  by (meson linear order_trans)

lemma exampleEntries_tree:
  "buildTree codeUnitCompare exampleEntries =
     TreeNode [] [] True
       [TreeNode ''b'' ''b'' True [] [],
        TreeNode ''a'' ''a'' False []
          [\<lparr>issueType = Duplicate, issuePath = ''a'',
            message = ''Duplicate path (also on lines: 1)'', line = Some 3\<rparr>]] []"
  by code_simp



theorem children_sorted_witness:
  "sorted_wrt (goesBefore codeUnitCompare) (children (buildTree codeUnitCompare exampleEntries)) \<and>
   map name (children (buildTree codeUnitCompare exampleEntries)) = [''b'', ''a''] \<and>
   map nodeIsDirectory (children (buildTree codeUnitCompare exampleEntries)) = [True, False]"
proof -
  from children_sorted [OF consistent_codeUnitCompare, of exampleEntries]
  have "childrenOrdered codeUnitCompare (buildTree codeUnitCompare exampleEntries)"
    by (rule everyNode_root)
  then show ?thesis
    by (simp add: childrenOrdered_def exampleEntries_tree)
qed



theorem tree_invariant_witness:
  "nodePath (buildTree codeUnitCompare exampleEntries) = [] \<and>
   nodeInvariant (buildTree codeUnitCompare exampleEntries) \<and>
   map nodePath (children (buildTree codeUnitCompare exampleEntries)) = [''b'', ''a'']"
  using tree_invariant [of codeUnitCompare exampleEntries]
  by (auto dest: everyNode_root simp: exampleEntries_tree)

end
